theory Spec2Isabelle
  imports Main "HOL-Library.AList"
begin

section \<open>Reactive core: cells, effects and the active-effect slot\<close>

text \<open>
  The source keeps one module-level variable \<^verbatim>\<open>activeEffect\<close> and, for every call of
  \<^verbatim>\<open>createSignal\<close>, a closure holding \<^verbatim>\<open>value\<close> and \<^verbatim>\<open>subscribers\<close>. A cell is
  identified here by a number, an effect (a JavaScript function object) by a number too;
  the code behind an effect identity is looked up in a table \<open>B\<close>.

  A JavaScript \<^verbatim>\<open>Set\<close> iterates in insertion order, never holds a value twice and
  \<^verbatim>\<open>forEach\<close> also visits values added while it runs; the subscriber set is therefore a
  list to which \<^verbatim>\<open>add\<close> appends when the value is absent, and \<^verbatim>\<open>forEach\<close> walks it by
  position against the live list.
\<close>

type_synonym cell = nat
type_synonym eff = nat

text \<open>The argument of a writer: \<^verbatim>\<open>T | ((prev: T) => T)\<close>.\<close>

datatype 'v newval = Lit 'v | Upd "'v \<Rightarrow> 'v"

text \<open>
  The body of a function that uses the reactive interface: it reads a cell and goes on
  with the value, writes a cell, registers an effect, creates a cell, or returns.
\<close>

datatype 'v prog =
    Done
  | Read cell "'v \<Rightarrow> 'v prog"
  | Write cell "'v newval" "'v prog"
  | Effect eff "'v prog"
  | Signal 'v "cell \<Rightarrow> 'v prog"

text \<open>
  The trace is an observer added to the model; the source has no such log. It records
  each call \<^verbatim>\<open>fn()\<close> made by \<^verbatim>\<open>createEffect\<close> (\<open>Started\<close>), each call \<^verbatim>\<open>fn()\<close> made by
  the \<^verbatim>\<open>forEach\<close> of a writer (\<open>Rerun\<close>, with the cell written), each call of a writer
  and each call of a reader together with the content of the slot at that moment.
\<close>

datatype event =
    Started eff
  | Rerun cell eff
  | Wrote cell
  | ReadBy cell "eff option"

record 'v state =
  activeEffect :: "eff option"
  val :: "cell \<Rightarrow> 'v"
  subscribers :: "cell \<Rightarrow> eff list"
  cells :: nat
  trace :: "event list"

definition emit :: "event \<Rightarrow> 'v state \<Rightarrow> 'v state" where
  "emit ev s = s\<lparr>trace := trace s @ [ev]\<rparr>"

text \<open>\<^verbatim>\<open>subscribers.add(activeEffect)\<close>\<close>

definition add :: "eff \<Rightarrow> eff list \<Rightarrow> eff list" where
  "add e xs = (if e \<in> set xs then xs else xs @ [e])"

text \<open>\<^verbatim>\<open>function get()\<close> of \<^verbatim>\<open>createSignal\<close>\<close>

definition get :: "cell \<Rightarrow> 'v state \<Rightarrow> 'v \<times> 'v state" where
  "get c s =
     (let s1 = emit (ReadBy c (activeEffect s)) s;
          s2 = (case activeEffect s1 of
                  Some e \<Rightarrow> s1\<lparr>subscribers := (subscribers s1)(c := add e (subscribers s1 c))\<rparr>
                | None \<Rightarrow> s1)
      in (val s2 c, s2))"

text \<open>The assignment that opens \<^verbatim>\<open>function set(newValue)\<close>.\<close>

definition assign :: "cell \<Rightarrow> 'v newval \<Rightarrow> 'v state \<Rightarrow> 'v state" where
  "assign c w s =
     (let s1 = emit (Wrote c) s
      in s1\<lparr>val := (val s1)(c := (case w of Upd f \<Rightarrow> f (val s1 c) | Lit v \<Rightarrow> v))\<rparr>)"

text \<open>\<^verbatim>\<open>createSignal(initialValue)\<close>: a new cell with an empty subscriber set.\<close>

definition createSignal :: "'v \<Rightarrow> 'v state \<Rightarrow> cell \<times> 'v state" where
  "createSignal v s =
     (let c = cells s
      in (c, s\<lparr>val := (val s)(c := v),
               subscribers := (subscribers s)(c := []),
               cells := Suc c\<rparr>))"

text \<open>
  Running a body. A write that is made from inside the fan-out of a write recurses on the
  same stack, and nothing in the source bounds that recursion, so the interpreter takes
  fuel. \<open>None\<close> means that there is no result: the fuel ran out, or the body names a
  cell that no \<^verbatim>\<open>createSignal\<close> call has returned yet (in the source a reader or a
  writer cannot be held before its cell exists). \<open>exec\<close> runs a body, \<open>forEach\<close> is
  \<^verbatim>\<open>subscribers.forEach(fn => fn())\<close> from position \<open>i\<close> on.
\<close>

fun exec :: "(eff \<Rightarrow> 'v prog) \<Rightarrow> nat \<Rightarrow> 'v prog \<Rightarrow> 'v state \<Rightarrow> 'v state option"
  and forEach :: "(eff \<Rightarrow> 'v prog) \<Rightarrow> nat \<Rightarrow> cell \<Rightarrow> nat \<Rightarrow> 'v state \<Rightarrow> 'v state option"
where
  "exec B 0 p s = None"
| "exec B (Suc n) Done s = Some s"
| "exec B (Suc n) (Read c k) s =
     (if c < cells s then exec B n (k (fst (get c s))) (snd (get c s)) else None)"
| "exec B (Suc n) (Write c w k) s =
     (if c < cells s
      then (case forEach B n c 0 (assign c w s) of
              None \<Rightarrow> None
            | Some s1 \<Rightarrow> exec B n k s1)
      else None)"
| "exec B (Suc n) (Effect e k) s =
     (case exec B n (B e) (emit (Started e) (s\<lparr>activeEffect := Some e\<rparr>)) of
        None \<Rightarrow> None
      | Some s1 \<Rightarrow> exec B n k (s1\<lparr>activeEffect := None\<rparr>))"
| "exec B (Suc n) (Signal v k) s =
     exec B n (k (fst (createSignal v s))) (snd (createSignal v s))"
| "forEach B 0 c i s = None"
| "forEach B (Suc n) c i s =
     (if i < length (subscribers s c)
      then (case exec B n (B (subscribers s c ! i)) (emit (Rerun c (subscribers s c ! i)) s) of
              None \<Rightarrow> None
            | Some s1 \<Rightarrow> forEach B n c (Suc i) s1)
      else Some s)"

text \<open>
  How often an event occurs in the trace, whether it occurred between two states, and how
  often the fan-out of any writer has called effect \<open>e\<close>.
\<close>

definition occ :: "event \<Rightarrow> 'v state \<Rightarrow> nat" where
  "occ ev s = count_list (trace s) ev"

definition fresh :: "event \<Rightarrow> 'v state \<Rightarrow> 'v state \<Rightarrow> bool" where
  "fresh ev s s' \<longleftrightarrow> occ ev s < occ ev s'"

definition is_rerun :: "eff \<Rightarrow> event \<Rightarrow> bool" where
  "is_rerun e ev = (case ev of Rerun c f \<Rightarrow> f = e | _ \<Rightarrow> False)"

definition reruns :: "eff \<Rightarrow> 'v state \<Rightarrow> nat" where
  "reruns e s = length (filter (is_rerun e) (trace s))"

text \<open>
  Two bodies used below: a function that reads the cells \<open>cs\<close> one after the other, and a
  caller that writes a list of cells in sequence.
\<close>

fun readAll :: "cell list \<Rightarrow> 'v prog \<Rightarrow> 'v prog" where
  "readAll [] k = k"
| "readAll (c # cs) k = Read c (\<lambda>_. readAll cs k)"

fun writeAll :: "(cell \<times> 'v newval) list \<Rightarrow> 'v prog \<Rightarrow> 'v prog" where
  "writeAll [] k = k"
| "writeAll ((c, w) # ws) k = Write c w (writeAll ws k)"

text \<open>The state in which \<open>k\<close> cells exist, all holding 0, and nothing has run yet.\<close>

definition init :: "nat \<Rightarrow> nat state" where
  "init k = \<lparr>activeEffect = None, val = (\<lambda>_. 0), subscribers = (\<lambda>_. []), cells = k, trace = []\<rparr>"

text \<open>
  \<^verbatim>\<open>function fn() { createEffect(g); c0(); }\<close> with \<^verbatim>\<open>function g() { c1(); }\<close>:
  effect 0 registers effect 1 and then reads cell 0; effect 1 reads cell 1.
\<close>

definition nested :: "eff \<Rightarrow> nat prog" where
  "nested e = (if e = 0 then Effect 1 (Read 0 (\<lambda>_. Done)) else Read 1 (\<lambda>_. Done))"

text \<open>
  \<^verbatim>\<open>function fn() { if (c0() === 0) setC0(1); else c1(); }\<close>: an effect that writes the
  cell it has just read, once.
\<close>

definition selfwrite :: "eff \<Rightarrow> nat prog" where
  "selfwrite e = Read 0 (\<lambda>v. if v = 0 then Write 0 (Lit 1) Done else Read 1 (\<lambda>_. Done))"

text \<open>
  Relations between the state before and the state after a run, used to carry facts
  through the interpreter. \<open>grows\<close>: the trace and the subscriber list of an existing cell
  are only extended. \<open>origin\<close>: an effect is in the slot, or in a subscriber list, only if it
  was there before or \<^verbatim>\<open>createEffect\<close> was called for it in between. \<open>steady\<close>: as long as
  \<^verbatim>\<open>createEffect\<close> is not called, the slot keeps its content and every read registers
  that content.
\<close>

definition grows :: "cell \<Rightarrow> 'v state \<Rightarrow> 'v state \<Rightarrow> bool" where
  "grows c s s' \<longleftrightarrow>
     cells s \<le> cells s' \<and>
     (\<forall>ev. occ ev s \<le> occ ev s') \<and>
     (c < cells s \<longrightarrow>
        (\<exists>ys. subscribers s' c = subscribers s c @ ys) \<and>
        (distinct (subscribers s c) \<longrightarrow> distinct (subscribers s' c)))"

definition origin :: "'v state \<Rightarrow> 'v state \<Rightarrow> bool" where
  "origin s s' \<longleftrightarrow>
     (\<forall>ev. occ ev s \<le> occ ev s') \<and>
     (\<forall>e. (activeEffect s' = Some e \<longrightarrow> activeEffect s = Some e \<or> fresh (Started e) s s') \<and>
          (\<forall>d. e \<in> set (subscribers s' d) \<longrightarrow>
                e \<in> set (subscribers s d) \<or> activeEffect s = Some e \<or> fresh (Started e) s s'))"

definition steady :: "'v state \<Rightarrow> 'v state \<Rightarrow> bool" where
  "steady s s' \<longleftrightarrow>
     (\<forall>c. grows c s s') \<and>
     (\<forall>c a. fresh (ReadBy c a) s s' \<longrightarrow> c < cells s') \<and>
     ((\<forall>g. occ (Started g) s' = occ (Started g) s) \<longrightarrow>
        activeEffect s' = activeEffect s \<and>
        (\<forall>c a. fresh (ReadBy c a) s s' \<longrightarrow>
           a = activeEffect s \<and> (\<forall>x. a = Some x \<longrightarrow> x \<in> set (subscribers s' c))))"

text \<open>The state after the reads of \<open>readAll cs\<close>.\<close>

fun reads :: "cell list \<Rightarrow> 'v state \<Rightarrow> 'v state" where
  "reads [] s = s"
| "reads (c # cs) s = reads cs (snd (get c s))"

text \<open>Effect \<open>e\<close> is the only subscriber of each of the cells \<open>cs\<close> and the slot is empty.\<close>

definition tuned :: "eff \<Rightarrow> cell list \<Rightarrow> 'v state \<Rightarrow> bool" where
  "tuned e cs s \<longleftrightarrow>
     activeEffect s = None \<and> (\<forall>c \<in> set cs. c < cells s \<and> subscribers s c = [e])"

text \<open>
  A table in which every effect reads the cells \<open>cs\<close> and returns, and a state in which
  effect 0 has subscribed to cell 0.
\<close>

definition reader :: "cell list \<Rightarrow> eff \<Rightarrow> nat prog" where
  "reader cs e = readAll cs Done"

definition subscribed :: "nat state" where
  "subscribed = (init 3)\<lparr>subscribers := (\<lambda>_. [])(0 := [0])\<rparr>"

text \<open>
  What the claims say of a writer, in their own words: \<open>invoke\<close> is one call \<^verbatim>\<open>fn()\<close> of
  the subscriber \<open>e\<close> of cell \<open>c\<close>, and \<open>invokeAll\<close> calls the subscribers of a list once each,
  in the order of the list. They are compared below with \<open>forEach\<close>, which walks the live
  subscriber set by position.
\<close>

definition invoke :: "(eff \<Rightarrow> 'v prog) \<Rightarrow> nat \<Rightarrow> cell \<Rightarrow> eff \<Rightarrow> 'v state \<Rightarrow> 'v state option" where
  "invoke B n c e s = exec B n (B e) (emit (Rerun c e) s)"

fun invokeAll :: "(eff \<Rightarrow> 'v prog) \<Rightarrow> nat \<Rightarrow> cell \<Rightarrow> eff list \<Rightarrow> 'v state \<Rightarrow> 'v state option" where
  "invokeAll B n c [] s = Some s"
| "invokeAll B n c (e # es) s =
     (case invoke B n c e s of None \<Rightarrow> None | Some s1 \<Rightarrow> invokeAll B n c es s1)"

text \<open>
  \<^verbatim>\<open>function fn() { setC1(c0()); }\<close>: an effect that copies cell 0 into cell 1.
\<close>

definition copier :: "eff \<Rightarrow> nat prog" where
  "copier e = Read 0 (\<lambda>v. Write 1 (Lit v) Done)"

text \<open>
  The events of a run up to the first call of \<^verbatim>\<open>createEffect\<close> made in it.
\<close>

definition is_started :: "event \<Rightarrow> bool" where
  "is_started ev = (case ev of Started g \<Rightarrow> True | _ \<Rightarrow> False)"

definition untilEffect :: "event list \<Rightarrow> event list" where
  "untilEffect evs = takeWhile (\<lambda>ev. \<not> is_started ev) evs"

text \<open>
  \<open>upto\<close>: until \<^verbatim>\<open>createEffect\<close> is called for the first time, the slot keeps its content
  and every read registers that content with the cell read.
\<close>

definition upto :: "'v state \<Rightarrow> 'v state \<Rightarrow> bool" where
  "upto s s' \<longleftrightarrow>
     (\<forall>c. grows c s s') \<and>
     (\<exists>evs. trace s' = trace s @ evs \<and>
        (\<forall>c a. ReadBy c a \<in> set (untilEffect evs) \<longrightarrow>
           a = activeEffect s \<and> c < cells s' \<and> (\<forall>x. a = Some x \<longrightarrow> x \<in> set (subscribers s' c))) \<and>
        (untilEffect evs = evs \<longrightarrow> activeEffect s' = activeEffect s))"

text \<open>
  \<^verbatim>\<open>function fn() { c0(); createEffect(g); c2(); }\<close> with \<^verbatim>\<open>function g() { c1(); }\<close>:
  effect 0 reads cell 0, registers effect 1 and then reads cell 2.
\<close>

definition readThenNest :: "eff \<Rightarrow> nat prog" where
  "readThenNest e =
     (if e = 0 then Read 0 (\<lambda>_. Effect 1 (Read 2 (\<lambda>_. Done))) else Read 1 (\<lambda>_. Done))"
section \<open>The document\<close>

text \<open>
  The builder works on the browser's document through \<^verbatim>\<open>document.createElement\<close>,
  \<^verbatim>\<open>appendChild\<close>, \<^verbatim>\<open>classList\<close> and so on. The document is modelled as a store of nodes
  numbered in the order of their creation. The one structural relation is the list of
  children of each node; the parent of a node is read off these lists. Of the exceptions of
  the DOM the model has those that depend on names, tokens and on whether a node is a
  child of the node the method is called on; the checks on node types and on cycles
  (\<^verbatim>\<open>HierarchyRequestError\<close>) are left out, and so are document fragments.
\<close>

type_synonym node = nat
type_synonym handler = nat

datatype kind = Element string | Text string | Comment string

datatype error = InvalidCharacterError | SyntaxError | NotFoundError | Error string

record document =
  nextNode :: nat
  kind :: "node \<Rightarrow> kind"
  ident :: "node \<Rightarrow> string"
  classList :: "node \<Rightarrow> string list"
  attrs :: "node \<Rightarrow> (string \<times> string) list"
  listeners :: "node \<Rightarrow> (string \<times> handler) list"
  display :: "node \<Rightarrow> string"
  childNodes :: "node \<Rightarrow> node list"

text \<open>Sequencing of steps that may throw.\<close>

definition andThen :: "error + 'a \<Rightarrow> ('a \<Rightarrow> error + 'b) \<Rightarrow> error + 'b" where
  "andThen m f = (case m of Inl e \<Rightarrow> Inl e | Inr x \<Rightarrow> f x)"

subsection \<open>Strings\<close>

definition lower :: string where
  "lower = ''abcdefghijklmnopqrstuvwxyz''"

definition upper :: string where
  "upper = ''ABCDEFGHIJKLMNOPQRSTUVWXYZ''"

definition digits :: string where
  "digits = ''0123456789''"

text \<open>The character classes \<^verbatim>\<open>\w\<close>, \<^verbatim>\<open>[\w-]\<close> and \<^verbatim>\<open>[\w-.]\<close>, and ASCII whitespace.\<close>

definition isWord :: "char \<Rightarrow> bool" where
  "isWord c \<longleftrightarrow> c \<in> set (lower @ upper @ digits @ ''_'')"

definition isIdChar :: "char \<Rightarrow> bool" where
  "isIdChar c \<longleftrightarrow> isWord c \<or> c = CHR ''-''"

definition isClassChar :: "char \<Rightarrow> bool" where
  "isClassChar c \<longleftrightarrow> isWord c \<or> c = CHR ''-'' \<or> c = CHR ''.''"

definition isSpace :: "char \<Rightarrow> bool" where
  "isSpace c \<longleftrightarrow> c \<in> set [CHR '' '', CHR 0x09, CHR 0x0A, CHR 0x0C, CHR 0x0D]"

text \<open>\<^verbatim>\<open>String.prototype.split\<close> with a one-character separator, and \<^verbatim>\<open>Array.prototype.join\<close>.\<close>

fun splitOn :: "(char \<Rightarrow> bool) \<Rightarrow> string \<Rightarrow> string list" where
  "splitOn P [] = [[]]"
| "splitOn P (c # cs) =
     (if P c then [] # splitOn P cs
      else (case splitOn P cs of [] \<Rightarrow> [[c]] | p # ps \<Rightarrow> (c # p) # ps))"

definition split :: "char \<Rightarrow> string \<Rightarrow> string list" where
  "split sep s = splitOn (\<lambda>c. c = sep) s"

fun join :: "string \<Rightarrow> string list \<Rightarrow> string" where
  "join sep [] = []"
| "join sep [x] = x"
| "join sep (x # y # ys) = x @ sep @ join sep (y # ys)"

text \<open>
  The tokens of a class attribute: split at whitespace, empty pieces dropped, the first
  occurrence of each token kept.
\<close>

definition tokens :: "string \<Rightarrow> string list" where
  "tokens s = rev (remdups (rev (filter (\<lambda>t. t \<noteq> []) (splitOn isSpace s))))"

definition toLowerCase :: "string \<Rightarrow> string" where
  "toLowerCase s = map (\<lambda>c. case map_of (zip upper lower) c of Some l \<Rightarrow> l | None \<Rightarrow> c) s"

text \<open>\<^verbatim>\<open>String(n)\<close> for an integer.\<close>

fun digitsOf :: "nat \<Rightarrow> string" where
  "digitsOf n = (if n < 10 then [digits ! n] else digitsOf (n div 10) @ [digits ! (n mod 10)])"

definition decimal :: "int \<Rightarrow> string" where
  "decimal i = (if i < 0 then CHR ''-'' # digitsOf (nat (- i)) else digitsOf (nat i))"

text \<open>
  The names \<^verbatim>\<open>createElement\<close> and \<^verbatim>\<open>setAttribute\<close> accept, for ASCII strings: a letter,
  an underscore or a colon, followed by letters, digits and \<^verbatim>\<open>_ : - .\<close>
\<close>

definition validName :: "string \<Rightarrow> bool" where
  "validName s \<longleftrightarrow>
     (case s of
        [] \<Rightarrow> False
      | c # cs \<Rightarrow> c \<in> set (lower @ upper @ ''_:'') \<and>
                 list_all (\<lambda>x. x \<in> set (lower @ upper @ digits @ ''_:-.'')) cs)"

subsection \<open>Nodes\<close>

text \<open>
  A new node has no identifier, class, attribute, listener or child, and it is no one's
  child.
\<close>

definition alloc :: "kind \<Rightarrow> document \<Rightarrow> node \<times> document" where
  "alloc k d =
     (let n = nextNode d
      in (n, d\<lparr>nextNode := Suc n,
               kind := (kind d)(n := k),
               ident := (ident d)(n := []),
               classList := (classList d)(n := []),
               attrs := (attrs d)(n := []),
               listeners := (listeners d)(n := []),
               display := (display d)(n := []),
               childNodes := (\<lambda>p. if p = n then [] else removeAll n (childNodes d p))\<rparr>))"

definition createElement :: "string \<Rightarrow> document \<Rightarrow> error + node \<times> document" where
  "createElement tag d =
     (if validName tag then Inr (alloc (Element (toLowerCase tag)) d)
      else Inl InvalidCharacterError)"

definition createTextNode :: "string \<Rightarrow> document \<Rightarrow> node \<times> document" where
  "createTextNode s d = alloc (Text s) d"

definition createComment :: "string \<Rightarrow> document \<Rightarrow> node \<times> document" where
  "createComment s d = alloc (Comment s) d"

text \<open>\<^verbatim>\<open>n.parentNode\<close>\<close>

definition parentNodeOf :: "document \<Rightarrow> node \<Rightarrow> node option" where
  "parentNodeOf d n = List.find (\<lambda>p. n \<in> set (childNodes d p)) [0..<nextNode d]"

text \<open>Inserting a node anywhere first takes it out of the place where it is.\<close>

definition detach :: "node \<Rightarrow> document \<Rightarrow> document" where
  "detach n d = d\<lparr>childNodes := (\<lambda>p. removeAll n (childNodes d p))\<rparr>"

definition appendChild :: "node \<Rightarrow> node \<Rightarrow> document \<Rightarrow> document" where
  "appendChild p n d =
     (let d1 = detach n d
      in d1\<lparr>childNodes := (childNodes d1)(p := childNodes d1 p @ [n])\<rparr>)"

definition removeChild :: "node \<Rightarrow> node \<Rightarrow> document \<Rightarrow> error + document" where
  "removeChild p n d =
     (if n \<in> set (childNodes d p)
      then Inr (d\<lparr>childNodes := (childNodes d)(p := removeAll n (childNodes d p))\<rparr>)
      else Inl NotFoundError)"

definition insertBefore :: "node \<Rightarrow> node \<Rightarrow> node \<Rightarrow> document \<Rightarrow> error + document" where
  "insertBefore p n ref d =
     (if ref \<notin> set (childNodes d p) then Inl NotFoundError
      else if n = ref then Inr d
      else (let d1 = detach n d; cs = childNodes d1 p
            in Inr (d1\<lparr>childNodes := (childNodes d1)
                        (p := takeWhile (\<lambda>x. x \<noteq> ref) cs @ n # dropWhile (\<lambda>x. x \<noteq> ref) cs)\<rparr>)))"

definition replaceChild :: "node \<Rightarrow> node \<Rightarrow> node \<Rightarrow> document \<Rightarrow> error + document" where
  "replaceChild p new old d =
     (if old \<notin> set (childNodes d p) then Inl NotFoundError
      else if new = old then Inr d
      else (let d1 = detach new d
            in Inr (d1\<lparr>childNodes := (childNodes d1)
                        (p := map (\<lambda>x. if x = old then new else x) (childNodes d1 p))\<rparr>)))"

text \<open>
  \<^verbatim>\<open>a.contains(b)\<close>: \<open>b\<close> is \<open>a\<close> or a descendant of \<open>a\<close>. The walk from \<open>b\<close> to the root
  takes at most as many steps as there are nodes.
\<close>

fun climb :: "nat \<Rightarrow> document \<Rightarrow> node \<Rightarrow> node \<Rightarrow> bool" where
  "climb 0 d a b = (a = b)"
| "climb (Suc k) d a b =
     (a = b \<or> (case parentNodeOf d b of None \<Rightarrow> False | Some q \<Rightarrow> climb k d a q))"

definition contains :: "document \<Rightarrow> node \<Rightarrow> node \<Rightarrow> bool" where
  "contains d a b = climb (nextNode d) d a b"

subsection \<open>Classes, attributes, listeners\<close>

definition classList_contains :: "node \<Rightarrow> string \<Rightarrow> document \<Rightarrow> bool" where
  "classList_contains n t d \<longleftrightarrow> t \<in> set (classList d n)"

definition classList_add :: "node \<Rightarrow> string \<Rightarrow> document \<Rightarrow> error + document" where
  "classList_add n t d =
     (if t = [] then Inl SyntaxError
      else if list_ex isSpace t then Inl InvalidCharacterError
      else Inr (d\<lparr>classList := (classList d)
                  (n := (if t \<in> set (classList d n) then classList d n
                         else classList d n @ [t]))\<rparr>))"

definition classList_remove :: "node \<Rightarrow> string \<Rightarrow> document \<Rightarrow> error + document" where
  "classList_remove n t d =
     (if t = [] then Inl SyntaxError
      else if list_ex isSpace t then Inl InvalidCharacterError
      else Inr (d\<lparr>classList := (classList d)(n := removeAll t (classList d n))\<rparr>))"

text \<open>\<^verbatim>\<open>element.className = s\<close> and \<^verbatim>\<open>element.id = s\<close>\<close>

definition set_className :: "node \<Rightarrow> string \<Rightarrow> document \<Rightarrow> document" where
  "set_className n s d = d\<lparr>classList := (classList d)(n := tokens s)\<rparr>"

definition set_id :: "node \<Rightarrow> string \<Rightarrow> document \<Rightarrow> document" where
  "set_id n s d = d\<lparr>ident := (ident d)(n := s)\<rparr>"

definition setAttribute :: "node \<Rightarrow> string \<Rightarrow> string \<Rightarrow> document \<Rightarrow> error + document" where
  "setAttribute n name v d =
     (if \<not> validName name then Inl InvalidCharacterError
      else (let a = toLowerCase name
            in if a = ''class'' then Inr (set_className n v d)
               else if a = ''id'' then Inr (set_id n v d)
               else Inr (d\<lparr>attrs := (attrs d)(n := AList.update a v (attrs d n))\<rparr>)))"

definition removeAttribute :: "node \<Rightarrow> string \<Rightarrow> document \<Rightarrow> document" where
  "removeAttribute n name d =
     (let a = toLowerCase name
      in if a = ''class'' then set_className n [] d
         else if a = ''id'' then set_id n [] d
         else d\<lparr>attrs := (attrs d)(n := AList.delete a (attrs d n))\<rparr>)"

definition addEventListener :: "node \<Rightarrow> string \<Rightarrow> handler \<Rightarrow> document \<Rightarrow> document" where
  "addEventListener n ev h d =
     (if (ev, h) \<in> set (listeners d n) then d
      else d\<lparr>listeners := (listeners d)(n := listeners d n @ [(ev, h)])\<rparr>)"

section \<open>The node builder\<close>

text \<open>
  \<^verbatim>\<open>part.match(/(\w+)?(?:#([\w-]+))?(?:\.([\w-.]+))?/)\<close>. Every group is optional, so
  the pattern matches at position 0 of any string, and each group, being greedy, takes the
  longest run it can. The result gives the three groups; \<open>None\<close> is \<^verbatim>\<open>undefined\<close>.
\<close>

definition regexMatch :: "string \<Rightarrow> string option \<times> string option \<times> string option" where
  "regexMatch part =
     (let tag = takeWhile isWord part;
          r1 = dropWhile isWord part;
          i = (case r1 of [] \<Rightarrow> [] | c # r \<Rightarrow> if c = CHR ''#'' then takeWhile isIdChar r else []);
          r2 = (if i = [] then r1 else drop (Suc (length i)) r1);
          k = (case r2 of [] \<Rightarrow> [] | c # r \<Rightarrow> if c = CHR ''.'' then takeWhile isClassChar r else [])
      in (if tag = [] then None else Some tag,
          if i = [] then None else Some i,
          if k = [] then None else Some k))"

text \<open>
  The loop of \<^verbatim>\<open>parseEmmet\<close> over the parts of the tag path, with the variables
  \<^verbatim>\<open>rootElement\<close> and \<^verbatim>\<open>currentElement\<close>.
\<close>

fun parseParts ::
  "string list \<Rightarrow> node option \<Rightarrow> node option \<Rightarrow> document \<Rightarrow>
   error + node option \<times> node option \<times> document"
where
  "parseParts [] rootElement currentElement d = Inr (rootElement, currentElement, d)"
| "parseParts (part # parts) rootElement currentElement d =
     (case regexMatch part of (tagm, idm, clsm) \<Rightarrow>
        (let tag = (case tagm of None \<Rightarrow> ''div'' | Some t \<Rightarrow> t);
             i = (case idm of None \<Rightarrow> [] | Some x \<Rightarrow> x);
             cls = (case clsm of None \<Rightarrow> [] | Some x \<Rightarrow> x)
         in andThen (createElement tag d) (\<lambda>(element, d1).
              (let d2 = (if i \<noteq> [] then set_id element i d1 else d1);
                   d3 = (if cls \<noteq> [] then set_className element (join '' '' (split CHR ''.'' cls)) d2
                         else d2)
               in (case rootElement of
                     None \<Rightarrow> parseParts parts (Some element) (Some element) d3
                   | Some r \<Rightarrow>
                       parseParts parts rootElement (Some element)
                         (case currentElement of
                            None \<Rightarrow> d3
                          | Some c \<Rightarrow> appendChild c element d3))))))"

text \<open>
  \<^verbatim>\<open>return [rootElement!, currentElement!]\<close>: \<^verbatim>\<open>split\<close> never returns an empty array,
  so both are set; the remaining case stands for the use of \<^verbatim>\<open>null\<close> that would follow.
\<close>

definition parseEmmet :: "string \<Rightarrow> document \<Rightarrow> error + node \<times> node \<times> document" where
  "parseEmmet input d =
     andThen (parseParts (split CHR ''>'' input) None None d) (\<lambda>(r, c, d1).
       (case (r, c) of
          (Some root, Some element) \<Rightarrow> Inr (root, element, d1)
        | _ \<Rightarrow> Inl (Error ''TypeError'')))"

text \<open>
  \<^verbatim>\<open>ComponentChild\<close> and \<^verbatim>\<open>ComponentOptions\<close>. A producer is a function of the values the
  cells hold when it is called (\<open>'e\<close>); a children producer may build nodes as well.
  Numbers are integers. \<open>None\<close> is an absent field, or \<^verbatim>\<open>undefined\<close> or \<^verbatim>\<open>null\<close> returned
  by a producer.
\<close>

datatype child = Str string | Num int | Child node

datatype children = One child | Many "child list"

datatype 'e childrenOpt =
    Static children
  | Produced "'e \<Rightarrow> document \<Rightarrow> error + children \<times> document"

datatype 'e classEntry = Class string | ClassFn "'e \<Rightarrow> string option"

datatype 'e classesOpt = OneClass "'e classEntry" | ManyClasses "'e classEntry list"

datatype 'e attrValue = Attr string | AttrNum int | AttrFn "'e \<Rightarrow> string option"

record 'e options =
  tagName :: string
  children :: "'e childrenOpt option"
  classes :: "'e classesOpt option"
  events :: "(string \<times> handler) list option"
  attributes :: "(string \<times> 'e attrValue) list option"

text \<open>
  The effects that \<^verbatim>\<open>createComponent\<close> registers, each with the variables its closure
  holds: the element, the producer and, for a class, \<^verbatim>\<open>referenceClass\<close>.
\<close>

datatype 'e binding =
    ClassEffect node "'e \<Rightarrow> string option" "string option"
  | AttrEffect node string "'e \<Rightarrow> string option"

text \<open>The body of the effect of a dynamic class, on \<^verbatim>\<open>referenceClass\<close> and the document.\<close>

definition classEffect ::
  "node \<Rightarrow> ('e \<Rightarrow> string option) \<Rightarrow> 'e \<Rightarrow> string option \<times> document \<Rightarrow>
   error + string option \<times> document"
where
  "classEffect element str env = (\<lambda>(referenceClass, d).
     (case str env of
        Some strClass \<Rightarrow>
          andThen (if \<not> classList_contains element strClass d
                   then classList_add element strClass d else Inr d) (\<lambda>d1.
          andThen (case referenceClass of
                     Some r \<Rightarrow> if r \<noteq> [] \<and> strClass \<noteq> r
                               then classList_remove element r d1 else Inr d1
                   | None \<Rightarrow> Inr d1) (\<lambda>d2.
          Inr (Some strClass, d2)))
      | None \<Rightarrow>
          (case referenceClass of
             Some r \<Rightarrow> if r \<noteq> []
                       then andThen (classList_remove element r d) (\<lambda>d1. Inr (referenceClass, d1))
                       else Inr (referenceClass, d)
           | None \<Rightarrow> Inr (referenceClass, d))))"

text \<open>The body of the effect of a dynamic attribute.\<close>

definition attrEffect ::
  "node \<Rightarrow> string \<Rightarrow> ('e \<Rightarrow> string option) \<Rightarrow> 'e \<Rightarrow> document \<Rightarrow> error + document"
where
  "attrEffect element attr value env d =
     (case value env of
        Some v \<Rightarrow> setAttribute element attr v d
      | None \<Rightarrow> Inr (removeAttribute element attr d))"

text \<open>A dependency change runs the body of the effect again.\<close>

definition rerun :: "'e \<Rightarrow> 'e binding \<times> document \<Rightarrow> error + 'e binding \<times> document" where
  "rerun env = (\<lambda>(b, d).
     (case b of
        ClassEffect element str referenceClass \<Rightarrow>
          andThen (classEffect element str env (referenceClass, d)) (\<lambda>(r, d1).
            Inr (ClassEffect element str r, d1))
      | AttrEffect element attr value \<Rightarrow>
          andThen (attrEffect element attr value env d) (\<lambda>d1. Inr (b, d1))))"

text \<open>\<^verbatim>\<open>addClass\<close>, and the loop over \<^verbatim>\<open>classes\<close>.\<close>

definition addClass ::
  "node \<Rightarrow> 'e \<Rightarrow> 'e classEntry \<Rightarrow> 'e binding list \<times> document \<Rightarrow>
   error + 'e binding list \<times> document"
where
  "addClass element env entry = (\<lambda>(bs, d).
     (case entry of
        ClassFn str \<Rightarrow>
          andThen (classEffect element str env (None, d)) (\<lambda>(r, d1).
            Inr (bs @ [ClassEffect element str r], d1))
      | Class s \<Rightarrow> andThen (classList_add element s d) (\<lambda>d1. Inr (bs, d1))))"

fun forEachM :: "('a \<Rightarrow> 's \<Rightarrow> error + 's) \<Rightarrow> 'a list \<Rightarrow> 's \<Rightarrow> error + 's" where
  "forEachM f [] s = Inr s"
| "forEachM f (x # xs) s = andThen (f x s) (forEachM f xs)"

definition applyClasses ::
  "node \<Rightarrow> 'e \<Rightarrow> 'e classesOpt option \<Rightarrow> 'e binding list \<times> document \<Rightarrow>
   error + 'e binding list \<times> document"
where
  "applyClasses element env cls bd =
     (case cls of
        None \<Rightarrow> Inr bd
      | Some (OneClass (Class [])) \<Rightarrow> Inr bd
      | Some (OneClass entry) \<Rightarrow> addClass element env entry bd
      | Some (ManyClasses entries) \<Rightarrow> forEachM (addClass element env) entries bd)"

definition applyEvents :: "node \<Rightarrow> (string \<times> handler) list option \<Rightarrow> document \<Rightarrow> document" where
  "applyEvents element evs d =
     (case evs of
        None \<Rightarrow> d
      | Some es \<Rightarrow> fold (\<lambda>(event, h). addEventListener element event h) es d)"

definition applyAttribute ::
  "node \<Rightarrow> 'e \<Rightarrow> string \<times> 'e attrValue \<Rightarrow> 'e binding list \<times> document \<Rightarrow>
   error + 'e binding list \<times> document"
where
  "applyAttribute element env = (\<lambda>(attr, value) (bs, d).
     (case value of
        AttrFn f \<Rightarrow>
          andThen (attrEffect element attr f env d) (\<lambda>d1.
            Inr (bs @ [AttrEffect element attr f], d1))
      | Attr s \<Rightarrow> andThen (setAttribute element attr s d) (\<lambda>d1. Inr (bs, d1))
      | AttrNum n \<Rightarrow> andThen (setAttribute element attr (decimal n) d) (\<lambda>d1. Inr (bs, d1))))"

definition applyAttributes ::
  "node \<Rightarrow> 'e \<Rightarrow> (string \<times> 'e attrValue) list option \<Rightarrow> 'e binding list \<times> document \<Rightarrow>
   error + 'e binding list \<times> document"
where
  "applyAttributes element env as bd =
     (case as of
        None \<Rightarrow> Inr bd
      | Some entries \<Rightarrow> forEachM (applyAttribute element env) entries bd)"

text \<open>\<^verbatim>\<open>addChild\<close>, and the three forms of \<^verbatim>\<open>children\<close>.\<close>

definition addChild :: "node \<Rightarrow> child \<Rightarrow> document \<Rightarrow> document" where
  "addChild element c d =
     (case c of
        Str s \<Rightarrow> (case createTextNode s d of (t, d1) \<Rightarrow> appendChild element t d1)
      | Num n \<Rightarrow> (case createTextNode (decimal n) d of (t, d1) \<Rightarrow> appendChild element t d1)
      | Child n \<Rightarrow> appendChild element n d)"

definition addChildren :: "node \<Rightarrow> children \<Rightarrow> document \<Rightarrow> document" where
  "addChildren element cs d =
     (case cs of
        One c \<Rightarrow> addChild element c d
      | Many xs \<Rightarrow> fold (addChild element) xs d)"

text \<open>\<^verbatim>\<open>if (children)\<close> is false for the empty string and for 0.\<close>

definition falsy :: "children \<Rightarrow> bool" where
  "falsy cs \<longleftrightarrow> cs = One (Str []) \<or> cs = One (Num 0)"

definition applyChildren ::
  "node \<Rightarrow> 'e \<Rightarrow> 'e childrenOpt option \<Rightarrow> document \<Rightarrow> error + document"
where
  "applyChildren element env ch d =
     (case ch of
        None \<Rightarrow> Inr d
      | Some (Static cs) \<Rightarrow> if falsy cs then Inr d else Inr (addChildren element cs d)
      | Some (Produced f) \<Rightarrow> andThen (f env d) (\<lambda>(cs, d1). Inr (addChildren element cs d1)))"

text \<open>
  \<^verbatim>\<open>createComponent\<close>. The result is the root, the effects registered on the way, in the
  order of their registration, and the document.
\<close>

definition createComponent ::
  "'e \<Rightarrow> 'e options \<Rightarrow> document \<Rightarrow> error + node \<times> 'e binding list \<times> document"
where
  "createComponent env opts d =
     andThen (parseEmmet (tagName opts) d) (\<lambda>(root, element, d0).
     andThen (applyClasses element env (classes opts) ([], d0)) (\<lambda>(bs1, d1).
     andThen (applyAttributes element env (attributes opts) (bs1, applyEvents element (events opts) d1))
       (\<lambda>(bs2, d2).
     andThen (applyChildren element env (children opts) d2) (\<lambda>d3.
     Inr (root, bs2, d3)))))"

text \<open>An empty document, and the options that name only a tag path.\<close>

definition emptyDocument :: document where
  "emptyDocument =
     \<lparr>nextNode = 0, kind = (\<lambda>_. Comment []), ident = (\<lambda>_. []), classList = (\<lambda>_. []),
      attrs = (\<lambda>_. []), listeners = (\<lambda>_. []), display = (\<lambda>_. []),
      childNodes = (\<lambda>_. [])\<rparr>"

definition plain :: "string \<Rightarrow> 'e options" where
  "plain path = \<lparr>tagName = path, children = None, classes = None, events = None, attributes = None\<rparr>"

text \<open>The document after \<^verbatim>\<open>parseEmmet("div#root.a.b>span.c")\<close>.\<close>

definition built :: "document \<Rightarrow> document" where
  "built d =
     appendChild (nextNode d) (Suc (nextNode d))
       (set_className (Suc (nextNode d)) ''c''
         (snd (alloc (Element ''span'')
           (set_className (nextNode d) ''a b''
             (set_id (nextNode d) ''root'' (snd (alloc (Element ''div'') d)))))))"

text \<open>
  A dependency change that concerns every effect of a component runs them in the order of
  their registration; \<open>changes\<close> is a sequence of such changes.
\<close>

fun rerunAll :: "'e \<Rightarrow> 'e binding list \<times> document \<Rightarrow> error + 'e binding list \<times> document" where
  "rerunAll env ([], d) = Inr ([], d)"
| "rerunAll env (b # bs, d) =
     andThen (rerun env (b, d)) (\<lambda>(b1, d1).
     andThen (rerunAll env (bs, d1)) (\<lambda>(bs1, d2). Inr (b1 # bs1, d2)))"

fun changes :: "'e list \<Rightarrow> 'e binding list \<times> document \<Rightarrow> error + 'e binding list \<times> document" where
  "changes [] bd = Inr bd"
| "changes (env # envs) bd = andThen (rerunAll env bd) (changes envs)"

text \<open>A token that \<^verbatim>\<open>classList.add\<close> accepts.\<close>

definition validToken :: "string \<Rightarrow> bool" where
  "validToken t \<longleftrightarrow> t \<noteq> [] \<and> \<not> list_ex isSpace t"

text \<open>
  A component with one dynamic class: the producer yields \<open>x\<close> or \<open>y\<close> as a cell holds
  true or false.
\<close>

definition dynamicClass :: "string \<Rightarrow> string \<Rightarrow> string \<Rightarrow> bool options" where
  "dynamicClass path x y =
     (plain path)\<lparr>classes := Some (OneClass (ClassFn (\<lambda>b. Some (if b then x else y))))\<rparr>"

text \<open>
  Notions used to state what else may put a class on the element to which the builder
  attaches classes. \<open>entriesOf\<close>: the entries of \<^verbatim>\<open>classes\<close>, as a list. \<open>avoids\<close>: an entry
  that never gives the class \<open>x\<close> or \<open>y\<close>, being a literal other than these two or a
  producer that yields neither. \<open>attributeNames\<close>: the names of the attributes given.
  \<open>keepsClasses\<close>: a children producer, which may build nodes of its own, leaves the classes
  of the element as they are.
\<close>

definition entriesOf :: "'e classesOpt \<Rightarrow> 'e classEntry list" where
  "entriesOf cs = (case cs of OneClass entry \<Rightarrow> [entry] | ManyClasses entries \<Rightarrow> entries)"

definition avoids :: "string \<Rightarrow> string \<Rightarrow> 'e classEntry \<Rightarrow> bool" where
  "avoids x y entry =
     (case entry of
        Class s \<Rightarrow> s \<noteq> x \<and> s \<noteq> y
      | ClassFn g \<Rightarrow> \<forall>env. g env \<noteq> Some x \<and> g env \<noteq> Some y)"

definition attributeNames :: "'e options \<Rightarrow> string list" where
  "attributeNames opts = (case attributes opts of None \<Rightarrow> [] | Some as \<Rightarrow> map fst as)"

definition keepsClasses :: "node \<Rightarrow> 'e \<Rightarrow> 'e childrenOpt option \<Rightarrow> bool" where
  "keepsClasses el env ch =
     (case ch of
        Some (Produced g) \<Rightarrow>
          \<forall>d cs d1. el < nextNode d \<longrightarrow> g env d = Inr (cs, d1) \<longrightarrow>
            el < nextNode d1 \<and> classList d1 el = classList d el
      | _ \<Rightarrow> True)"

text \<open>
  For the effects a component has registered: \<open>other\<close> is an effect that neither adds nor
  removes \<open>x\<close> or \<open>y\<close>; \<open>carries\<close> says that, of \<open>x\<close> and \<open>y\<close>, the element has exactly the
  class \<open>t\<close> (none of the two when \<open>t\<close> is \<open>None\<close>); \<open>same\<close> says that two documents agree on
  whether the element has \<open>x\<close> and whether it has \<open>y\<close>; \<open>arranged\<close> says that the effect of
  the producer \<open>f\<close> is registered once, holds \<open>t\<close> in \<^verbatim>\<open>referenceClass\<close>, and stands among
  effects that are \<open>other\<close>.
\<close>

definition other :: "string \<Rightarrow> string \<Rightarrow> 'e binding \<Rightarrow> bool" where
  "other x y b =
     (case b of
        ClassEffect n g r \<Rightarrow>
          (\<forall>env. g env \<noteq> Some x \<and> g env \<noteq> Some y) \<and> r \<noteq> Some x \<and> r \<noteq> Some y
      | AttrEffect n a g \<Rightarrow> toLowerCase a \<noteq> ''class'')"

definition carries :: "string \<Rightarrow> string \<Rightarrow> node \<Rightarrow> string option \<Rightarrow> document \<Rightarrow> bool" where
  "carries x y el t d \<longleftrightarrow>
     el < nextNode d \<and>
     (x \<in> set (classList d el)) = (t = Some x) \<and> (y \<in> set (classList d el)) = (t = Some y)"

definition same :: "string \<Rightarrow> string \<Rightarrow> node \<Rightarrow> document \<Rightarrow> document \<Rightarrow> bool" where
  "same x y el d d' \<longleftrightarrow>
     (el < nextNode d \<longrightarrow> el < nextNode d') \<and>
     (x \<in> set (classList d' el)) = (x \<in> set (classList d el)) \<and>
     (y \<in> set (classList d' el)) = (y \<in> set (classList d el))"

definition arranged ::
  "string \<Rightarrow> string \<Rightarrow> node \<Rightarrow> ('e \<Rightarrow> string option) \<Rightarrow> string option \<Rightarrow>
   'e binding list \<times> document \<Rightarrow> bool"
where
  "arranged x y el f t = (\<lambda>(bs, d).
     carries x y el t d \<and>
     (\<exists>o1 o2. bs = o1 @ ClassEffect el f t # o2 \<and>
        list_all (other x y) o1 \<and> list_all (other x y) o2))"

text \<open>
  A component with a class from the tag path, a literal class, the producer of \<open>x\<close> and
  \<open>y\<close>, a second producer, an attribute and a child.
\<close>

definition decorated :: "bool options" where
  "decorated =
     \<lparr>tagName = ''div.a'',
      children = Some (Static (One (Str ''hi''))),
      classes = Some (ManyClasses
        [Class ''b'', ClassFn (\<lambda>b. Some (if b then ''x'' else ''y'')),
         ClassFn (\<lambda>b. if b then Some ''on'' else None)]),
      events = None,
      attributes = Some [(''title'', Attr ''t'')]\<rparr>"
section \<open>The conditional component\<close>

text \<open>
  The variables \<^verbatim>\<open>elm\<close>, \<^verbatim>\<open>placeholder\<close> and \<^verbatim>\<open>parentNode\<close> that the effect of the
  remove strategy closes over.
\<close>

record cond_state =
  elm :: "node option"
  placeholder :: "node option"
  parentNode :: "node option"

datatype strategy = Display | Remove

text \<open>The first block of the effect: find the parent through whichever node is attached.\<close>

definition findParent :: "cond_state \<Rightarrow> document \<Rightarrow> cond_state" where
  "findParent st d =
     (case (case elm st of Some e \<Rightarrow> parentNodeOf d e | None \<Rightarrow> None) of
        Some p \<Rightarrow> st\<lparr>parentNode := Some p\<rparr>
      | None \<Rightarrow>
          (case (case placeholder st of Some c \<Rightarrow> parentNodeOf d c | None \<Rightarrow> None) of
             Some p \<Rightarrow> st\<lparr>parentNode := Some p\<rparr>
           | None \<Rightarrow> st))"

text \<open>
  The body of the effect of the remove strategy. The second test of \<^verbatim>\<open>!parentNode\<close>, with
  its \<^verbatim>\<open>throw\<close>, stands where the source has it: after the branch that returns.
\<close>

definition conditionalEffect ::
  "'e options \<Rightarrow> ('e \<Rightarrow> bool) \<Rightarrow> 'e \<Rightarrow> cond_state \<times> document \<Rightarrow> error + cond_state \<times> document"
where
  "conditionalEffect opts condition env = (\<lambda>(st0, d).
     (let st = (if parentNode st0 = None then findParent st0 d else st0)
      in if parentNode st = None
         then (if condition env
               then andThen (createComponent env opts d) (\<lambda>(root, bs, d1).
                      Inr (st\<lparr>elm := Some root\<rparr>, d1))
               else (case createComment ''hidden'' d of (c, d1) \<Rightarrow>
                      Inr (st\<lparr>placeholder := Some c\<rparr>, d1)))
         else if parentNode st = None
         then Inl (Error ''Unable to find the parent node'')
         else (let p = the (parentNode st)
               in if condition env
                  then (case placeholder st of
                          None \<Rightarrow> Inr (st, d)
                        | Some c \<Rightarrow>
                            if contains d p c
                            then andThen (createComponent env opts d) (\<lambda>(root, bs, d1).
                                 andThen (replaceChild p root c d1) (\<lambda>d2.
                                   Inr (st\<lparr>elm := Some root, placeholder := None\<rparr>, d2)))
                            else Inr (st, d))
                  else (case elm st of
                          None \<Rightarrow> Inr (st, d)
                        | Some e \<Rightarrow>
                            if contains d p e
                            then (case createComment ''hidden'' d of (c, d1) \<Rightarrow>
                                 andThen (replaceChild p c e d1) (\<lambda>d2.
                                   Inr (st\<lparr>placeholder := Some c, elm := None\<rparr>, d2)))
                            else Inr (st, d)))))"

text \<open>\<^verbatim>\<open>elm || placeholder\<close>\<close>

definition markerOf :: "cond_state \<Rightarrow> node option" where
  "markerOf st = (case elm st of Some e \<Rightarrow> Some e | None \<Rightarrow> placeholder st)"

text \<open>
  \<^verbatim>\<open>conditionalComponent\<close>: the node it returns, the variables of the effect it has
  registered (unused by the display strategy) and the document.
\<close>

definition conditionalComponent ::
  "'e options \<Rightarrow> ('e \<Rightarrow> bool) \<Rightarrow> strategy \<Rightarrow> 'e \<Rightarrow> document \<Rightarrow>
   error + node \<times> cond_state \<times> document"
where
  "conditionalComponent opts condition strat env d =
     (let none = \<lparr>elm = None, placeholder = None, parentNode = None\<rparr>
      in case strat of
           Display \<Rightarrow>
             andThen (createComponent env opts d) (\<lambda>(component, bs, d1).
               Inr (component, none,
                    d1\<lparr>display := (display d1)
                         (component := (if condition env then [] else ''none''))\<rparr>))
         | Remove \<Rightarrow>
             andThen (conditionalEffect opts condition env (none, d)) (\<lambda>(st, d1).
               (case markerOf st of
                  Some n \<Rightarrow> Inr (n, st, d1)
                | None \<Rightarrow> Inl (Error ''TypeError''))))"

text \<open>
  A sequence of dependency changes, each running the effect again. The first component
  collects every node the effect has held in \<^verbatim>\<open>elm\<close> or \<^verbatim>\<open>placeholder\<close>; it is an
  observer and has no counterpart in the source.
\<close>

definition held :: "cond_state \<Rightarrow> node list" where
  "held st = (case elm st of Some e \<Rightarrow> [e] | None \<Rightarrow> []) @
             (case placeholder st of Some c \<Rightarrow> [c] | None \<Rightarrow> [])"

fun toggles ::
  "'e options \<Rightarrow> ('e \<Rightarrow> bool) \<Rightarrow> 'e list \<Rightarrow> node list \<times> cond_state \<times> document \<Rightarrow>
   error + node list \<times> cond_state \<times> document"
where
  "toggles opts condition [] x = Inr x"
| "toggles opts condition (env # envs) (seen, st, d) =
     andThen (conditionalEffect opts condition env (st, d)) (\<lambda>(st1, d1).
       toggles opts condition envs (seen @ held st1, st1, d1))"

text \<open>
  \<open>attached\<close>: \<open>m\<close> is a child of \<open>p\<close> and of no other node. \<open>adds\<close>: the step from \<open>d\<close>
  to \<open>d1\<close> has created nodes, among them \<open>root\<close>, which is no one's child; a node that
  existed before is a child of the same nodes as before, and of no new node. \<open>selfContained\<close>: building the component always succeeds and does
  no more than that to the document.
\<close>

definition attached :: "document \<Rightarrow> node \<Rightarrow> node \<Rightarrow> bool" where
  "attached d p m \<longleftrightarrow>
     p < nextNode d \<and> m < nextNode d \<and> m \<in> set (childNodes d p) \<and>
     (\<forall>q < nextNode d. q \<noteq> p \<longrightarrow> m \<notin> set (childNodes d q))"

definition adds :: "document \<Rightarrow> document \<Rightarrow> node \<Rightarrow> bool" where
  "adds d d1 root \<longleftrightarrow>
     nextNode d \<le> root \<and> root < nextNode d1 \<and>
     (\<forall>q < nextNode d1. root \<notin> set (childNodes d1 q)) \<and>
     (\<forall>q < nextNode d. \<forall>m < nextNode d.
        (m \<in> set (childNodes d1 q)) = (m \<in> set (childNodes d q))) \<and>
     (\<forall>q < nextNode d1. nextNode d \<le> q \<longrightarrow> (\<forall>m \<in> set (childNodes d1 q). nextNode d \<le> m))"

definition selfContained :: "'e options \<Rightarrow> bool" where
  "selfContained opts \<longleftrightarrow>
     (\<forall>env d. case createComponent env opts d of
        Inl e \<Rightarrow> False
      | Inr (root, bs, d1) \<Rightarrow> adds d d1 root)"

text \<open>
  The state of an attached conditional component: exactly one of \<^verbatim>\<open>elm\<close> and
  \<^verbatim>\<open>placeholder\<close> is set, that node is a child of \<open>p\<close>, and every other node the effect has
  ever held is no one's child.
\<close>

definition oneMarker :: "node \<Rightarrow> node list \<Rightarrow> cond_state \<Rightarrow> document \<Rightarrow> bool" where
  "oneMarker p seen st d \<longleftrightarrow>
     (parentNode st = None \<or> parentNode st = Some p) \<and>
     (elm st = None \<or> placeholder st = None) \<and>
     (\<exists>m. markerOf st = Some m \<and> attached d p m \<and> m \<in> set seen \<and>
          (\<forall>x \<in> set seen. x < nextNode d \<and> (x \<noteq> m \<longrightarrow> parentNodeOf d x = None)))"

text \<open>The conditional component of the form view: a text in a \<^verbatim>\<open>strong.feedback\<close>.\<close>

definition feedback :: "bool options" where
  "feedback = (plain ''strong.feedback'')
     \<lparr>children := Some (Static (One (Str ''Todo name must be at least 4 charters long'')))\<rparr>"

text \<open>A document that holds one \<^verbatim>\<open>div\<close>, node 0.\<close>

definition host :: document where
  "host = snd (alloc (Element ''div'') emptyDocument)"

section \<open>The list component\<close>

text \<open>
  The items of the collection are objects; an item is identified here by a number that
  stands for the identity of the object, and \<open>json\<close> gives, for each object, the result of
  \<^verbatim>\<open>JSON.stringify\<close> at the time of a pass. \<^verbatim>\<open>itemMap\<close> is a JavaScript \<^verbatim>\<open>Map\<close>, which
  keeps its keys in the order of their insertion: an association list, with
  \<open>AList.update\<close> for \<^verbatim>\<open>set\<close> and \<open>AList.delete\<close> for \<^verbatim>\<open>delete\<close>.
\<close>

type_synonym item = nat

record entry =
  element :: node
  id' :: string
  setter :: cell
  position :: nat

text \<open>
  The variables the effect of \<^verbatim>\<open>listComponent\<close> closes over, and the cells made by its
  calls of \<^verbatim>\<open>createSignal\<close>. Only the list holds the writers of these cells, so their values
  change only here; the effects that read them belong to the rendered nodes.
\<close>

record listState =
  itemMap :: "(item \<times> entry) list"
  parentNode' :: "node option"
  referenceElm :: "node option"
  signals :: "item state"

text \<open>\<^verbatim>\<open>Determine the parent node if not set\<close>\<close>

definition viaFirst :: "listState \<Rightarrow> document \<Rightarrow> listState" where
  "viaFirst st d =
     (case itemMap st of
        [] \<Rightarrow> st
      | (k, first) # _ \<Rightarrow>
          (case parentNodeOf d (element first) of
             Some p \<Rightarrow> st\<lparr>parentNode' := Some p\<rparr>
           | None \<Rightarrow> st))"

definition resolveParent :: "listState \<times> document \<Rightarrow> error + listState \<times> document" where
  "resolveParent = (\<lambda>(st, d).
     (if parentNode' st = None
      then (case referenceElm st of
              None \<Rightarrow> Inr (viaFirst st d, d)
            | Some r \<Rightarrow>
                (case parentNodeOf d r of
                   None \<Rightarrow> Inr (viaFirst st d, d)
                 | Some p \<Rightarrow>
                     andThen (removeChild p r d) (\<lambda>d1.
                       Inr (st\<lparr>parentNode' := Some p, referenceElm := None\<rparr>, d1))))
      else Inr (st, d)))"

text \<open>
  \<^verbatim>\<open>Remove items not in the new list\<close>: the \<^verbatim>\<open>forEach\<close> over \<^verbatim>\<open>itemMap\<close>. Its callback
  deletes no key but the one it is visiting, so the loop runs over the entries the map had
  when it started.
\<close>

fun removeGone ::
  "item list \<Rightarrow> (item \<times> entry) list \<Rightarrow> listState \<times> document \<Rightarrow> error + listState \<times> document"
where
  "removeGone currentItems [] sd = Inr sd"
| "removeGone currentItems ((item, e) # rest) (st, d) =
     (if item \<notin> set currentItems
      then andThen (case parentNode' st of
                      None \<Rightarrow> Inr d
                    | Some p \<Rightarrow> removeChild p (element e) d) (\<lambda>d1.
             removeGone currentItems rest (st\<lparr>itemMap := AList.delete item (itemMap st)\<rparr>, d1))
      else removeGone currentItems rest (st, d))"

text \<open>\<^verbatim>\<open>Convert primitive to TextNode if needed\<close>\<close>

definition toNode :: "child \<Rightarrow> document \<Rightarrow> node \<times> document" where
  "toNode newElement d =
     (case newElement of
        Str s \<Rightarrow> createTextNode s d
      | Num k \<Rightarrow> createTextNode (decimal k) d
      | Child n \<Rightarrow> (n, d))"

text \<open>
  The body of \<^verbatim>\<open>currentItems.forEach((item, i) => ...)\<close>, in three parts. The two
  functions the list is given from outside are parameters: \<open>renderItem\<close>, called with the
  item the reader returns, the cell and the index, and \<open>notify\<close>, the fan-out of the writer
  of a private cell to the effects of the rendered node. Both work on the document and on
  whatever else the application holds (\<open>'w\<close>), and may throw.
\<close>

definition renderNew ::
  "(item \<Rightarrow> cell \<Rightarrow> nat \<Rightarrow> 'w \<times> document \<Rightarrow> error + child \<times> 'w \<times> document) \<Rightarrow>
   (item \<Rightarrow> string) \<Rightarrow> item \<Rightarrow> nat \<Rightarrow> listState \<times> 'w \<times> document \<Rightarrow>
   error + entry \<times> listState \<times> 'w \<times> document"
where
  "renderNew renderItem json item i = (\<lambda>(st, w, d).
     (let c = fst (createSignal item (signals st));
          sg = snd (createSignal item (signals st))
      in andThen (renderItem item c i (w, d)) (\<lambda>(newElement, w1, d1).
           (let n = fst (toNode newElement d1);
                d2 = snd (toNode newElement d1);
                obj = \<lparr>element = n, id' = json item, setter = c, position = i\<rparr>
            in Inr (obj, st\<lparr>itemMap := AList.update item obj (itemMap st), signals := sg\<rparr>,
                    w1, d2)))))"

definition updateExisting ::
  "(cell \<Rightarrow> item \<Rightarrow> 'w \<times> document \<Rightarrow> error + 'w \<times> document) \<Rightarrow>
   (item \<Rightarrow> string) \<Rightarrow> item \<Rightarrow> nat \<Rightarrow> entry \<Rightarrow> listState \<times> 'w \<times> document \<Rightarrow>
   error + entry \<times> listState \<times> 'w \<times> document"
where
  "updateExisting notify json item i obj = (\<lambda>(st, w, d).
     (let sg = assign (setter obj) (Upd (\<lambda>_. item)) (signals st)
      in andThen (notify (setter obj) item (w, d)) (\<lambda>(w1, d1).
           (let obj1 = obj\<lparr>id' := json item, position := i\<rparr>
            in Inr (obj1, st\<lparr>itemMap := AList.update item obj1 (itemMap st), signals := sg\<rparr>,
                    w1, d1)))))"

definition reposition ::
  "item \<Rightarrow> nat \<Rightarrow> entry \<Rightarrow> listState \<times> 'w \<times> document \<Rightarrow> error + listState \<times> 'w \<times> document"
where
  "reposition item i obj = (\<lambda>(st, w, d).
     andThen (case parentNode' st of
                None \<Rightarrow> Inr d
              | Some p \<Rightarrow>
                  (let targetPosition =
                         (if i < length (childNodes d p) then Some (childNodes d p ! i) else None)
                   in if targetPosition \<noteq> Some (element obj)
                      then (case targetPosition of
                              Some t \<Rightarrow> insertBefore p (element obj) t d
                            | None \<Rightarrow> Inr (appendChild p (element obj) d))
                      else Inr d)) (\<lambda>d1.
       Inr (st\<lparr>itemMap := AList.update item (obj\<lparr>position := i\<rparr>) (itemMap st)\<rparr>, w, d1)))"

definition upsert ::
  "(item \<Rightarrow> cell \<Rightarrow> nat \<Rightarrow> 'w \<times> document \<Rightarrow> error + child \<times> 'w \<times> document) \<Rightarrow>
   (cell \<Rightarrow> item \<Rightarrow> 'w \<times> document \<Rightarrow> error + 'w \<times> document) \<Rightarrow>
   (item \<Rightarrow> string) \<Rightarrow> item \<Rightarrow> nat \<Rightarrow> listState \<times> 'w \<times> document \<Rightarrow>
   error + listState \<times> 'w \<times> document"
where
  "upsert renderItem notify json item i = (\<lambda>(st, w, d).
     (let obj = map_of (itemMap st) item;
          isPositionChanged = (case obj of None \<Rightarrow> True | Some e \<Rightarrow> position e \<noteq> i)
      in andThen (case obj of
                    None \<Rightarrow> renderNew renderItem json item i (st, w, d)
                  | Some e \<Rightarrow>
                      if json item \<noteq> id' e then updateExisting notify json item i e (st, w, d)
                      else Inr (e, st, w, d)) (\<lambda>(obj1, x).
           if isPositionChanged then reposition item i obj1 x else Inr x)))"

fun upsertAll ::
  "(item \<Rightarrow> cell \<Rightarrow> nat \<Rightarrow> 'w \<times> document \<Rightarrow> error + child \<times> 'w \<times> document) \<Rightarrow>
   (cell \<Rightarrow> item \<Rightarrow> 'w \<times> document \<Rightarrow> error + 'w \<times> document) \<Rightarrow>
   (item \<Rightarrow> string) \<Rightarrow> item list \<Rightarrow> nat \<Rightarrow> listState \<times> 'w \<times> document \<Rightarrow>
   error + listState \<times> 'w \<times> document"
where
  "upsertAll renderItem notify json [] i x = Inr x"
| "upsertAll renderItem notify json (item # items) i x =
     andThen (upsert renderItem notify json item i x) (upsertAll renderItem notify json items (Suc i))"

text \<open>One reconciliation pass: the body of the effect, for the collection \<^verbatim>\<open>items()\<close>.\<close>

definition listEffect ::
  "(item \<Rightarrow> cell \<Rightarrow> nat \<Rightarrow> 'w \<times> document \<Rightarrow> error + child \<times> 'w \<times> document) \<Rightarrow>
   (cell \<Rightarrow> item \<Rightarrow> 'w \<times> document \<Rightarrow> error + 'w \<times> document) \<Rightarrow>
   (item \<Rightarrow> string) \<Rightarrow> item list \<Rightarrow> listState \<times> 'w \<times> document \<Rightarrow>
   error + listState \<times> 'w \<times> document"
where
  "listEffect renderItem notify json currentItems = (\<lambda>(st, w, d).
     andThen (resolveParent (st, d)) (\<lambda>(st1, d1).
     andThen (removeGone currentItems (itemMap st1) (st1, d1)) (\<lambda>(st2, d2).
     upsertAll renderItem notify json currentItems 0 (st2, w, d2))))"

text \<open>The variables of a list before its first pass.\<close>

definition noList :: listState where
  "noList = \<lparr>itemMap = [], parentNode' = None, referenceElm = None, signals = init 0\<rparr>"

text \<open>\<^verbatim>\<open>listComponent\<close>: the first pass, and the elements handed to the caller.\<close>

definition listComponent ::
  "(item \<Rightarrow> cell \<Rightarrow> nat \<Rightarrow> 'w \<times> document \<Rightarrow> error + child \<times> 'w \<times> document) \<Rightarrow>
   (cell \<Rightarrow> item \<Rightarrow> 'w \<times> document \<Rightarrow> error + 'w \<times> document) \<Rightarrow>
   (item \<Rightarrow> string) \<Rightarrow> item list \<Rightarrow> 'w \<times> document \<Rightarrow>
   error + node list \<times> listState \<times> 'w \<times> document"
where
  "listComponent renderItem notify json currentItems = (\<lambda>(w, d).
     andThen (listEffect renderItem notify json currentItems (noList, w, d))
       (\<lambda>(st, w1, d1).
          (let elements = map (\<lambda>(k, e). element e) (itemMap st)
           in if elements = []
              then (case createComment ''render list items'' d1 of (r, d2) \<Rightarrow>
                      Inr ([r], st\<lparr>referenceElm := Some r\<rparr>, w1, d2))
              else Inr (elements, st, w1, d1))))"

text \<open>
  The invariant of the list's own data: no key occurs twice in \<^verbatim>\<open>itemMap\<close>, no two keys
  share a cell, and every cell of an entry has been created.
\<close>

definition wellFormed :: "listState \<Rightarrow> bool" where
  "wellFormed st \<longleftrightarrow>
     distinct (map fst (itemMap st)) \<and>
     (\<forall>k k' e e'. map_of (itemMap st) k = Some e \<longrightarrow> map_of (itemMap st) k' = Some e' \<longrightarrow>
        setter e = setter e' \<longrightarrow> k = k') \<and>
     (\<forall>k e. map_of (itemMap st) k = Some e \<longrightarrow> setter e < cells (signals st))"

text \<open>
  A render function that returns the text \<^verbatim>\<open>item\<close> for every item, a fan-out with no
  subscriber, and a serialisation that gives the same string for every item.
\<close>

definition renderLabel :: "item \<Rightarrow> cell \<Rightarrow> nat \<Rightarrow> unit \<times> document \<Rightarrow> error + child \<times> unit \<times> document" where
  "renderLabel item c i = (\<lambda>(w, d). Inr (Str ''item'', w, d))"

definition nobody :: "cell \<Rightarrow> item \<Rightarrow> unit \<times> document \<Rightarrow> error + unit \<times> document" where
  "nobody c item wd = Inr wd"

definition mount :: "node \<Rightarrow> node list \<Rightarrow> document \<Rightarrow> document" where
  "mount p elements d = fold (appendChild p) elements d"

text \<open>
  The list of the given items, rendered by \<open>renderLabel\<close> and appended to the \<^verbatim>\<open>div\<close> of
  \<open>host\<close>, as \<^verbatim>\<open>createComponent\<close> does with the children it is given.
\<close>

definition mounted :: "item list \<Rightarrow> listState \<times> unit \<times> document" where
  "mounted items =
     (case listComponent renderLabel nobody (\<lambda>_. ''a'') items ((), host) of
        Inr (elements, st, w, d) \<Rightarrow> (st, w, mount 0 elements d)
      | Inl e \<Rightarrow> (noList, (), host))"

section \<open>Properties of the reactive core\<close>

lemma occ_emit [simp]: "occ ev (emit ev' s) = occ ev s + (if ev = ev' then 1 else 0)"
  by (simp add: occ_def emit_def)

lemma emit_fields [simp]:
  "activeEffect (emit ev s) = activeEffect s"
  "subscribers (emit ev s) = subscribers s"
  "val (emit ev s) = val s"
  "cells (emit ev s) = cells s"
  by (simp_all add: emit_def)

lemma occ_upd [simp]:
  "occ ev (s\<lparr>activeEffect := a\<rparr>) = occ ev s"
  "occ ev (s\<lparr>subscribers := sb\<rparr>) = occ ev s"
  "occ ev (s\<lparr>val := vl\<rparr>) = occ ev s"
  "occ ev (s\<lparr>cells := k\<rparr>) = occ ev s"
  by (simp_all add: occ_def)

lemma get_facts:
  "activeEffect (snd (get c s)) = activeEffect s"
  "cells (snd (get c s)) = cells s"
  "occ ev (snd (get c s)) = occ ev s + (if ev = ReadBy c (activeEffect s) then 1 else 0)"
  "subscribers (snd (get c s)) d =
     (case activeEffect s of Some e \<Rightarrow> if d = c then add e (subscribers s c) else subscribers s d
      | None \<Rightarrow> subscribers s d)"
  by (simp_all add: get_def Let_def split: option.splits)

lemma assign_facts:
  "activeEffect (assign c w s) = activeEffect s"
  "cells (assign c w s) = cells s"
  "subscribers (assign c w s) = subscribers s"
  "occ ev (assign c w s) = occ ev s + (if ev = Wrote c then 1 else 0)"
  by (simp_all add: assign_def Let_def)

lemma createSignal_facts:
  "activeEffect (snd (createSignal v s)) = activeEffect s"
  "cells (snd (createSignal v s)) = Suc (cells s)"
  "occ ev (snd (createSignal v s)) = occ ev s"
  "subscribers (snd (createSignal v s)) d = (if d = cells s then [] else subscribers s d)"
  by (simp_all add: createSignal_def Let_def)

lemma exec_rel:
  assumes refl: "\<And>s. R s s"
    and trans: "\<And>s s1 s2. R s s1 \<Longrightarrow> R s1 s2 \<Longrightarrow> R s s2"
    and rd: "\<And>c s. c < cells s \<Longrightarrow> R s (snd (get c s))"
    and wr: "\<And>c w s. R s (assign c w s)"
    and sg: "\<And>v s. R s (snd (createSignal v s))"
    and rr: "\<And>c e s. R s (emit (Rerun c e) s)"
    and ef: "\<And>e s s1. R (emit (Started e) (s\<lparr>activeEffect := Some e\<rparr>)) s1
                \<Longrightarrow> R s (s1\<lparr>activeEffect := None\<rparr>)"
  shows "exec B n p s = Some s' \<Longrightarrow> R s s'"
    and "forEach B n d i s = Some s' \<Longrightarrow> R s s'"
proof (induction B n p s and B n d i s arbitrary: s' and s' rule: exec_forEach.induct)
  case (1 B p s)
  then show ?case by simp
next
  case (2 B n s)
  then show ?case by (simp add: refl)
next
  case (3 B n c k s)
  from "3.prems" have c: "c < cells s"
    and a: "exec B n (k (fst (get c s))) (snd (get c s)) = Some s'"
    by (auto split: if_splits)
  have "R (snd (get c s)) s'" using "3.IH" c a by blast
  then show ?case using trans [OF rd [OF c]] by blast
next
  case (4 B n c w k s)
  from "4.prems" obtain s1 where c: "c < cells s"
    and a: "forEach B n c 0 (assign c w s) = Some s1"
    and b: "exec B n k s1 = Some s'"
    by (auto split: option.splits if_splits)
  have "R (assign c w s) s1" using "4.IH"(1) c a by blast
  then have "R s s1" using trans [OF wr] by blast
  moreover have "R s1 s'" using "4.IH"(2) c a b by blast
  ultimately show ?case by (rule trans)
next
  case (5 B n e k s)
  from "5.prems" obtain s1
    where a: "exec B n (B e) (emit (Started e) (s\<lparr>activeEffect := Some e\<rparr>)) = Some s1"
      and b: "exec B n k (s1\<lparr>activeEffect := None\<rparr>) = Some s'"
    by (auto split: option.splits)
  have "R (emit (Started e) (s\<lparr>activeEffect := Some e\<rparr>)) s1" using "5.IH"(1) a by blast
  then have "R s (s1\<lparr>activeEffect := None\<rparr>)" by (rule ef)
  moreover have "R (s1\<lparr>activeEffect := None\<rparr>) s'" using "5.IH"(2) a b by blast
  ultimately show ?case by (rule trans)
next
  case (6 B n v k s)
  then show ?case using trans [OF sg] by fastforce
next
  case (7 B c i s)
  then show ?case by simp
next
  case (8 B n d i s)
  show ?case
  proof (cases "i < length (subscribers s d)")
    case True
    with "8.prems" obtain s1
      where a: "exec B n (B (subscribers s d ! i)) (emit (Rerun d (subscribers s d ! i)) s) = Some s1"
        and b: "forEach B n d (Suc i) s1 = Some s'"
      by (auto split: option.splits)
    have "R (emit (Rerun d (subscribers s d ! i)) s) s1" using "8.IH"(1) True a by blast
    then have "R s s1" using trans [OF rr] by blast
    moreover have "R s1 s'" using "8.IH"(2) True a b by blast
    ultimately show ?thesis by (rule trans)
  next
    case False
    with "8.prems" show ?thesis by (simp add: refl)
  qed
qed

lemma grows_refl: "grows c s s"
  by (simp add: grows_def)

lemma grows_trans:
  assumes a: "grows c s s1" and b: "grows c s1 s2" shows "grows c s s2"
proof -
  have o: "\<forall>ev. occ ev s \<le> occ ev s2"
  proof
    fix ev
    have "occ ev s \<le> occ ev s1" using a by (simp add: grows_def)
    moreover have "occ ev s1 \<le> occ ev s2" using b by (simp add: grows_def)
    ultimately show "occ ev s \<le> occ ev s2" by (rule le_trans)
  qed
  have k: "cells s \<le> cells s2" using a b by (simp add: grows_def)
  show ?thesis
  proof (cases "c < cells s")
    case True
    then have c1: "c < cells s1" using a by (simp add: grows_def)
    from a True obtain ys where y: "subscribers s1 c = subscribers s c @ ys"
      by (auto simp: grows_def)
    from b c1 obtain zs where z: "subscribers s2 c = subscribers s1 c @ zs"
      by (auto simp: grows_def)
    have "subscribers s2 c = subscribers s c @ (ys @ zs)" using y z by simp
    then have "\<exists>ys. subscribers s2 c = subscribers s c @ ys" by blast
    moreover have "distinct (subscribers s c) \<longrightarrow> distinct (subscribers s2 c)"
      using a b True c1 by (simp add: grows_def)
    ultimately show ?thesis using o k by (simp add: grows_def)
  next
    case False
    then show ?thesis using o k by (simp add: grows_def)
  qed
qed

lemma grows_step:
  "grows c s (snd (get d s))"
  "grows c s (assign d w s)"
  "grows c s (snd (createSignal v s))"
  "grows c s (emit ev s)"
  "grows c s (s\<lparr>activeEffect := a\<rparr>)"
  by (auto simp: grows_def get_facts assign_facts createSignal_facts add_def split: option.splits)

lemma exec_grows:
  "exec B n p s = Some s' \<Longrightarrow> grows c s s'"
  "forEach B n d i s = Some s' \<Longrightarrow> grows c s s'"
proof -
  have ef: "\<And>e (s :: 'a state) s1. grows c (emit (Started e) (s\<lparr>activeEffect := Some e\<rparr>)) s1
                \<Longrightarrow> grows c s (s1\<lparr>activeEffect := None\<rparr>)"
    using grows_trans [OF grows_trans [OF grows_trans [OF grows_step(5) grows_step(4)]] grows_step(5)] .
  show "exec B n p s = Some s' \<Longrightarrow> grows c s s'"
    by (rule exec_rel(1) [where R = "grows c", OF grows_refl grows_trans grows_step(1,2,3,4) ef])
  show "forEach B n d i s = Some s' \<Longrightarrow> grows c s s'"
    by (rule exec_rel(2) [where R = "grows c", OF grows_refl grows_trans grows_step(1,2,3,4) ef])
qed

lemma pending_step:
  assumes d: "distinct (xs @ ys)" and m: "e \<in> set xs" and i: "i < length xs"
  shows "(if e \<in> set (drop i xs) then 1 else 0) =
         (if xs ! i = e then 1 else 0) + (if e \<in> set (drop (Suc i) (xs @ ys)) then 1 else (0::nat))"
proof -
  have dx: "distinct xs" and ny: "e \<notin> set ys" using d m by auto
  have split: "drop i xs = xs ! i # drop (Suc i) xs" using i by (simp add: Cons_nth_drop_Suc)
  have later: "set (drop (Suc i) (xs @ ys)) = set (drop (Suc i) xs) \<union> set ys" using i by simp
  have "xs ! i \<notin> set (drop (Suc i) xs)"
    using dx split by (metis distinct.simps(2) distinct_drop)
  then show ?thesis using split later ny by auto
qed

lemma once_per_write:
  "exec B n p s = Some s' \<Longrightarrow> c < cells s \<Longrightarrow> e \<in> set (subscribers s c) \<Longrightarrow>
     distinct (subscribers s c) \<Longrightarrow>
     occ (Rerun c e) s' + occ (Wrote c) s = occ (Rerun c e) s + occ (Wrote c) s'"
  "forEach B n d i s = Some s' \<Longrightarrow> c < cells s \<Longrightarrow> e \<in> set (subscribers s c) \<Longrightarrow>
     distinct (subscribers s c) \<Longrightarrow>
     occ (Rerun c e) s' + occ (Wrote c) s =
     occ (Rerun c e) s + occ (Wrote c) s' +
       (if d = c \<and> e \<in> set (drop i (subscribers s c)) then 1 else 0)"
proof (induction B n p s and B n d i s arbitrary: s' and s' rule: exec_forEach.induct)
  case (1 B p s)
  then show ?case by simp
next
  case (2 B n s)
  then show ?case by simp
next
  case (3 B n c' k s)
  from "3.prems"(1) have c': "c' < cells s"
    and a: "exec B n (k (fst (get c' s))) (snd (get c' s)) = Some s'"
    by (auto split: if_splits)
  have "c < cells (snd (get c' s))" "e \<in> set (subscribers (snd (get c' s)) c)"
    "distinct (subscribers (snd (get c' s)) c)"
    using "3.prems" by (auto simp: get_facts add_def split: option.splits)
  then have "occ (Rerun c e) s' + occ (Wrote c) (snd (get c' s)) =
             occ (Rerun c e) (snd (get c' s)) + occ (Wrote c) s'"
    using "3.IH" [OF c' a] by simp
  then show ?case by (simp add: get_facts)
next
  case (4 B n c' w k s)
  from "4.prems"(1) obtain s1 where c': "c' < cells s"
    and a: "forEach B n c' 0 (assign c' w s) = Some s1"
    and b: "exec B n k s1 = Some s'"
    by (auto split: option.splits if_splits)
  have g: "grows c (assign c' w s) s1" using a by (rule exec_grows(2))
  have p0: "c < cells (assign c' w s)" "e \<in> set (subscribers (assign c' w s) c)"
    "distinct (subscribers (assign c' w s) c)"
    using "4.prems" by (simp_all add: assign_facts)
  have p1: "c < cells s1" "e \<in> set (subscribers s1 c)" "distinct (subscribers s1 c)"
    using g p0 by (auto simp: grows_def)
  have "occ (Rerun c e) s1 + occ (Wrote c) (assign c' w s) =
        occ (Rerun c e) (assign c' w s) + occ (Wrote c) s1 + (if c' = c then 1 else 0)"
    using "4.IH"(1) [OF c' a p0] p0(2) by simp
  moreover have "occ (Rerun c e) s' + occ (Wrote c) s1 = occ (Rerun c e) s1 + occ (Wrote c) s'"
    using "4.IH"(2) [OF c' a b p1] .
  ultimately show ?case by (simp add: assign_facts split: if_splits)
next
  case (5 B n f k s)
  let ?s0 = "emit (Started f) (s\<lparr>activeEffect := Some f\<rparr>)"
  from "5.prems" obtain s1 where a: "exec B n (B f) ?s0 = Some s1"
    and b: "exec B n k (s1\<lparr>activeEffect := None\<rparr>) = Some s'"
    by (auto split: option.splits)
  have g: "grows c ?s0 s1" using a by (rule exec_grows(1))
  have p0: "c < cells ?s0" "e \<in> set (subscribers ?s0 c)" "distinct (subscribers ?s0 c)"
    using "5.prems" by simp_all
  have p1: "c < cells (s1\<lparr>activeEffect := None\<rparr>)"
    "e \<in> set (subscribers (s1\<lparr>activeEffect := None\<rparr>) c)"
    "distinct (subscribers (s1\<lparr>activeEffect := None\<rparr>) c)"
    using g p0 by (auto simp: grows_def)
  have "occ (Rerun c e) s1 + occ (Wrote c) ?s0 = occ (Rerun c e) ?s0 + occ (Wrote c) s1"
    using "5.IH"(1) [OF a p0] .
  moreover have "occ (Rerun c e) s' + occ (Wrote c) (s1\<lparr>activeEffect := None\<rparr>) =
                 occ (Rerun c e) (s1\<lparr>activeEffect := None\<rparr>) + occ (Wrote c) s'"
    using "5.IH"(2) [OF a b p1] .
  ultimately show ?case by simp
next
  case (6 B n v k s)
  have "c < cells (snd (createSignal v s))" "e \<in> set (subscribers (snd (createSignal v s)) c)"
    "distinct (subscribers (snd (createSignal v s)) c)"
    using "6.prems" by (auto simp: createSignal_facts)
  then have "occ (Rerun c e) s' + occ (Wrote c) (snd (createSignal v s)) =
             occ (Rerun c e) (snd (createSignal v s)) + occ (Wrote c) s'"
    using "6.IH" "6.prems"(1) by simp
  then show ?case by (simp add: createSignal_facts)
next
  case (7 B c i s)
  then show ?case by simp
next
  case (8 B n d i s)
  show ?case
  proof (cases "i < length (subscribers s d)")
    case True
    let ?f = "subscribers s d ! i"
    let ?s0 = "emit (Rerun d ?f) s"
    from True "8.prems" obtain s1 where a: "exec B n (B ?f) ?s0 = Some s1"
      and b: "forEach B n d (Suc i) s1 = Some s'"
      by (auto split: option.splits)
    have g: "grows c ?s0 s1" using a by (rule exec_grows(1))
    have p0: "c < cells ?s0" "e \<in> set (subscribers ?s0 c)" "distinct (subscribers ?s0 c)"
      using "8.prems" by simp_all
    from g p0 obtain ys where ys: "subscribers s1 c = subscribers s c @ ys"
      by (auto simp: grows_def)
    have p1: "c < cells s1" "e \<in> set (subscribers s1 c)" "distinct (subscribers s1 c)"
      using g p0 by (auto simp: grows_def)
    have e1: "occ (Rerun c e) s1 + occ (Wrote c) ?s0 = occ (Rerun c e) ?s0 + occ (Wrote c) s1"
      using "8.IH"(1) [OF True a p0] .
    have e2: "occ (Rerun c e) s' + occ (Wrote c) s1 =
              occ (Rerun c e) s1 + occ (Wrote c) s' +
              (if d = c \<and> e \<in> set (drop (Suc i) (subscribers s1 c)) then 1 else 0)"
      using "8.IH"(2) [OF True a b p1] .
    show ?thesis
    proof (cases "d = c")
      case False
      with e1 e2 show ?thesis by simp
    next
      case same: True
      have "(if e \<in> set (drop i (subscribers s c)) then 1 else 0) =
            (if subscribers s c ! i = e then 1 else 0) +
            (if e \<in> set (drop (Suc i) (subscribers s c @ ys)) then 1 else (0::nat))"
        using p1(3) "8.prems"(3) True unfolding ys same by (rule pending_step)
      with e1 e2 same ys show ?thesis by (simp split: if_splits)
    qed
  next
    case False
    then have "d = c \<Longrightarrow> drop i (subscribers s c) = []" by simp
    with False "8.prems" show ?thesis by auto
  qed
qed

lemma fresh_trans:
  "fresh ev s s1 \<Longrightarrow> occ ev s1 \<le> occ ev s2 \<Longrightarrow> fresh ev s s2"
  "occ ev s \<le> occ ev s1 \<Longrightarrow> fresh ev s1 s2 \<Longrightarrow> fresh ev s s2"
  by (simp_all add: fresh_def)

lemma origin_trans: 
  assumes a: "origin s s1" and b: "origin s1 s2" shows "origin s s2"
proof -
  have m1: "\<And>ev. occ ev s \<le> occ ev s1" and m2: "\<And>ev. occ ev s1 \<le> occ ev s2"
    using a b by (simp_all add: origin_def)
  have m: "\<forall>ev. occ ev s \<le> occ ev s2" using m1 m2 le_trans by blast
  have act1: "\<And>e. activeEffect s1 = Some e \<Longrightarrow> activeEffect s = Some e \<or> fresh (Started e) s s2"
    using a fresh_trans(1) [OF _ m2] unfolding origin_def by blast
  have act: "\<And>e. activeEffect s2 = Some e \<Longrightarrow> activeEffect s = Some e \<or> fresh (Started e) s s2"
    using b act1 fresh_trans(2) [OF m1] unfolding origin_def by blast
  have sub1: "\<And>e d. e \<in> set (subscribers s1 d) \<Longrightarrow>
      e \<in> set (subscribers s d) \<or> activeEffect s = Some e \<or> fresh (Started e) s s2"
    using a fresh_trans(1) [OF _ m2] unfolding origin_def by blast
  have sub: "\<And>e d. e \<in> set (subscribers s2 d) \<Longrightarrow>
      e \<in> set (subscribers s d) \<or> activeEffect s = Some e \<or> fresh (Started e) s s2"
    using b sub1 act1 fresh_trans(2) [OF m1] unfolding origin_def by blast
  show ?thesis unfolding origin_def using m act sub by blast
qed

lemma exec_origin:
  "exec B n p s = Some s' \<Longrightarrow> origin s s'"
  "forEach B n d i s = Some s' \<Longrightarrow> origin s s'"
proof -
  have r: "\<And>s :: 'a state. origin s s" by (simp add: origin_def)
  have g: "\<And>d (s :: 'a state). origin s (snd (get d s))"
    by (auto simp: origin_def get_facts add_def split: option.splits if_splits)
  have w: "\<And>d w (s :: 'a state). origin s (assign d w s)"
    by (simp add: origin_def assign_facts)
  have sg: "\<And>v (s :: 'a state). origin s (snd (createSignal v s))"
    by (simp add: origin_def createSignal_facts)
  have rr: "\<And>d e (s :: 'a state). origin s (emit (Rerun d e) s)"
    by (simp add: origin_def)
  have st: "\<And>e (s :: 'a state). origin s (emit (Started e) (s\<lparr>activeEffect := Some e\<rparr>))"
    by (simp add: origin_def fresh_def)
  have cl: "\<And>s :: 'a state. origin s (s\<lparr>activeEffect := None\<rparr>)"
    by (simp add: origin_def)
  have ef: "\<And>e (s :: 'a state) s1. origin (emit (Started e) (s\<lparr>activeEffect := Some e\<rparr>)) s1
                \<Longrightarrow> origin s (s1\<lparr>activeEffect := None\<rparr>)"
    using origin_trans [OF origin_trans [OF st] cl] .
  show "exec B n p s = Some s' \<Longrightarrow> origin s s'"
    by (rule exec_rel(1) [where R = origin, OF r origin_trans g w sg rr ef])
  show "forEach B n d i s = Some s' \<Longrightarrow> origin s s'"
    by (rule exec_rel(2) [where R = origin, OF r origin_trans g w sg rr ef])
qed

lemma steady_trans:
  assumes a: "steady s s1" and b: "steady s1 s2" shows "steady s s2"
proof -
  have g1: "\<And>c. grows c s s1" and g2: "\<And>c. grows c s1 s2"
    using a b by (simp_all add: steady_def)
  have g: "\<forall>c. grows c s s2" using grows_trans [OF g1 g2] by blast
  have m1: "\<And>ev. occ ev s \<le> occ ev s1" and m2: "\<And>ev. occ ev s1 \<le> occ ev s2"
    using g1 g2 unfolding grows_def by blast+
  have k: "cells s1 \<le> cells s2" using g2 [of 0] by (simp add: grows_def)
  have part: "\<And>c x. fresh (ReadBy c x) s s2 \<Longrightarrow> fresh (ReadBy c x) s s1 \<or> fresh (ReadBy c x) s1 s2"
    by (auto simp: fresh_def)
  have ex: "\<forall>c x. fresh (ReadBy c x) s s2 \<longrightarrow> c < cells s2"
  proof (intro allI impI)
    fix c x
    assume "fresh (ReadBy c x) s s2"
    from part [OF this] show "c < cells s2"
    proof
      assume "fresh (ReadBy c x) s s1"
      then have "c < cells s1" using a unfolding steady_def by blast
      then show ?thesis using k by simp
    next
      assume "fresh (ReadBy c x) s1 s2"
      then show ?thesis using b unfolding steady_def by blast
    qed
  qed
  show ?thesis
  proof (cases "\<forall>g. occ (Started g) s2 = occ (Started g) s")
    case False
    then show ?thesis unfolding steady_def using g ex by blast
  next
    case True
    have q1: "\<forall>g. occ (Started g) s1 = occ (Started g) s"
    proof
      fix g show "occ (Started g) s1 = occ (Started g) s"
        using m1 [of "Started g"] m2 [of "Started g"] True by (metis le_antisym)
    qed
    with True have q2: "\<forall>g. occ (Started g) s2 = occ (Started g) s1" by simp
    have a1: "activeEffect s1 = activeEffect s" using a q1 by (simp add: steady_def)
    have a2: "activeEffect s2 = activeEffect s1" using b q2 by (simp add: steady_def)
    have rd: "\<And>c x. fresh (ReadBy c x) s s2 \<Longrightarrow>
        x = activeEffect s \<and> (\<forall>y. x = Some y \<longrightarrow> y \<in> set (subscribers s2 c))"
    proof -
      fix c x
      assume "fresh (ReadBy c x) s s2"
      from part [OF this]
      show "x = activeEffect s \<and> (\<forall>y. x = Some y \<longrightarrow> y \<in> set (subscribers s2 c))"
      proof
        assume f: "fresh (ReadBy c x) s s1"
        then have h: "x = activeEffect s" "\<forall>y. x = Some y \<longrightarrow> y \<in> set (subscribers s1 c)"
          using a q1 unfolding steady_def by blast+
        have "c < cells s1" using f a unfolding steady_def by blast
        then have "set (subscribers s1 c) \<subseteq> set (subscribers s2 c)"
          using g2 [of c] by (auto simp: grows_def)
        with h show ?thesis by blast
      next
        assume "fresh (ReadBy c x) s1 s2"
        then have "x = activeEffect s1" "\<forall>y. x = Some y \<longrightarrow> y \<in> set (subscribers s2 c)"
          using b q2 unfolding steady_def by blast+
        with a1 show ?thesis by simp
      qed
    qed
    show ?thesis unfolding steady_def using g ex a1 a2 rd by simp
  qed
qed

lemma exec_steady:
  "exec B n p s = Some s' \<Longrightarrow> steady s s'"
  "forEach B n d i s = Some s' \<Longrightarrow> steady s s'"
proof -
  have r: "\<And>s :: 'a state. steady s s" by (simp add: steady_def grows_refl fresh_def)
  have g: "\<And>d (s :: 'a state). d < cells s \<Longrightarrow> steady s (snd (get d s))"
    by (auto simp: steady_def grows_step fresh_def get_facts add_def split: option.splits if_splits)
  have w: "\<And>d w (s :: 'a state). steady s (assign d w s)"
    by (auto simp: steady_def grows_step fresh_def assign_facts)
  have sg: "\<And>v (s :: 'a state). steady s (snd (createSignal v s))"
    by (auto simp: steady_def grows_step fresh_def createSignal_facts)
  have rr: "\<And>d e (s :: 'a state). steady s (emit (Rerun d e) s)"
    by (auto simp: steady_def grows_step fresh_def)
  have ef: "\<And>e (s :: 'a state) s1. steady (emit (Started e) (s\<lparr>activeEffect := Some e\<rparr>)) s1
                \<Longrightarrow> steady s (s1\<lparr>activeEffect := None\<rparr>)"
  proof -
    fix e and s s1 :: "'a state"
    let ?s0 = "emit (Started e) (s\<lparr>activeEffect := Some e\<rparr>)"
    assume a: "steady ?s0 s1"
    then have g0: "\<And>c. grows c ?s0 s1" by (simp add: steady_def)
    have "\<And>c. grows c s ?s0" 
      using grows_trans [OF grows_step(5) grows_step(4)] .
    then have "\<And>c. grows c s s1" using grows_trans g0 by blast
    then have gg: "\<forall>c. grows c s (s1\<lparr>activeEffect := None\<rparr>)"
      using grows_trans [OF _ grows_step(5)] by blast
    have ex: "\<forall>c a. fresh (ReadBy c a) s (s1\<lparr>activeEffect := None\<rparr>) \<longrightarrow> c < cells (s1\<lparr>activeEffect := None\<rparr>)"
      using a unfolding steady_def by (simp add: fresh_def)
    have "occ (Started e) ?s0 \<le> occ (Started e) s1" using g0 unfolding grows_def by blast
    then have "occ (Started e) (s1\<lparr>activeEffect := None\<rparr>) \<noteq> occ (Started e) s" by simp
    then show "steady s (s1\<lparr>activeEffect := None\<rparr>)"
      unfolding steady_def using gg ex by blast
  qed
  show "exec B n p s = Some s' \<Longrightarrow> steady s s'"
    by (rule exec_rel(1) [where R = steady, OF r steady_trans g w sg rr ef])
  show "forEach B n d i s = Some s' \<Longrightarrow> steady s s'"
    by (rule exec_rel(2) [where R = steady, OF r steady_trans g w sg rr ef])
qed

lemma exec_readAll:
  "length cs < n \<Longrightarrow> \<forall>c \<in> set cs. c < cells s \<Longrightarrow>
   exec B n (readAll cs Done) s = Some (reads cs s)"
proof (induction cs arbitrary: n s)
  case Nil
  then show ?case by (cases n) simp_all
next
  case (Cons c cs)
  then obtain m where n: "n = Suc m" and m: "length cs < m" by (cases n) auto
  have "\<forall>d \<in> set cs. d < cells (snd (get c s))" using Cons.prems(2) by (simp add: get_facts)
  from Cons.IH [OF m this] show ?case using Cons.prems(2) by (simp add: n)
qed

lemma reads_facts:
  "activeEffect (reads cs s) = activeEffect s"
  "cells (reads cs s) = cells s"
  "reruns e (reads cs s) = reruns e s"
  "occ (Started g) (reads cs s) = occ (Started g) s"
proof (induction cs arbitrary: s)
  case Nil
  {
    case 1 show ?case by simp
  next
    case 2 show ?case by simp
  next
    case 3 show ?case by simp
  next
    case 4 show ?case by simp
  }
next
  case (Cons c cs)
  {
    case 1 show ?case by (simp add: Cons.IH get_facts)
  next
    case 2 show ?case by (simp add: Cons.IH get_facts)
  next
    case 3 show ?case
      by (simp add: Cons.IH) (simp add: reruns_def get_def Let_def emit_def is_rerun_def split: option.splits)
  next
    case 4 show ?case by (simp add: Cons.IH get_facts)
  }
qed

lemma reads_idle:
  "activeEffect s = None \<Longrightarrow> subscribers (reads cs s) = subscribers s"
  by (induction cs arbitrary: s) (simp_all add: get_facts fun_eq_iff)

lemma reads_active:
  "activeEffect s = Some e \<Longrightarrow>
   subscribers (reads cs s) d = (if d \<in> set cs then add e (subscribers s d) else subscribers s d)"
proof (induction cs arbitrary: s)
  case Nil
  then show ?case by simp
next
  case (Cons c cs)
  have "activeEffect (snd (get c s)) = Some e" using Cons.prems by (simp add: get_facts)
  from Cons.IH [OF this] show ?case using Cons.prems
    by (auto simp: get_facts add_def)
qed

lemma forEach_single:
  assumes b: "B e = readAll cs Done" and t: "tuned e cs s" and c: "c \<in> set cs"
    and n: "length cs + 1 < n"
  shows "forEach B n c 0 s = Some (reads cs (emit (Rerun c e) s))"
proof -
  obtain m where nm: "n = Suc m" and m: "length cs < m" using n by (cases n) auto
  obtain k where mk: "m = Suc k" using m by (cases m) auto
  have sub: "subscribers s c = [e]" using t c by (simp add: tuned_def)
  have act: "activeEffect (emit (Rerun c e) s) = None" using t by (simp add: tuned_def)
  have run: "exec B m (B e) (emit (Rerun c e) s) = Some (reads cs (emit (Rerun c e) s))"
    unfolding b using m by (rule exec_readAll) (use t in \<open>simp add: tuned_def\<close>)
  have after: "subscribers (reads cs (emit (Rerun c e) s)) c = [e]"
    using reads_idle [OF act] sub by simp
  have "forEach B m c (Suc 0) (reads cs (emit (Rerun c e) s)) = Some (reads cs (emit (Rerun c e) s))"
    unfolding mk using after by simp
  then show ?thesis unfolding nm using sub run by simp
qed

lemma exec_Effect_Done:
  assumes "exec B n (Effect fn Done) s = Some s'"
  obtains m s1 where "exec B m (B fn) (emit (Started fn) (s\<lparr>activeEffect := Some fn\<rparr>)) = Some s1"
    and "s' = s1\<lparr>activeEffect := None\<rparr>"
proof -
  obtain m where n: "n = Suc m" using assms by (cases n) auto
  from assms obtain s1
    where a: "exec B m (B fn) (emit (Started fn) (s\<lparr>activeEffect := Some fn\<rparr>)) = Some s1"
      and b: "exec B m Done (s1\<lparr>activeEffect := None\<rparr>) = Some s'"
    unfolding n by (auto split: option.splits)
  have "s' = s1\<lparr>activeEffect := None\<rparr>" using b by (cases m) auto
  with a that show thesis by blast
qed

lemma exec_mono:
  "exec B n p s = Some s' \<Longrightarrow> n \<le> m \<Longrightarrow> exec B m p s = Some s'"
  "forEach B n c i s = Some s' \<Longrightarrow> n \<le> m \<Longrightarrow> forEach B m c i s = Some s'"
proof (induction B n p s and B n c i s arbitrary: s' m and s' m rule: exec_forEach.induct)
  case (1 B p s)
  then show ?case by simp
next
  case (2 B n s)
  then obtain k where "m = Suc k" by (cases m) auto
  with 2 show ?case by simp
next
  case (3 B n c k s)
  from "3.prems" obtain j where m: "m = Suc j" and j: "n \<le> j" by (cases m) auto
  from "3.prems"(1) have c: "c < cells s"
    and a: "exec B n (k (fst (get c s))) (snd (get c s)) = Some s'"
    by (auto split: if_splits)
  from "3.IH" [OF c a j] show ?case using c by (simp add: m)
next
  case (4 B n c w k s)
  from "4.prems" obtain j where m: "m = Suc j" and j: "n \<le> j" by (cases m) auto
  from "4.prems"(1) obtain s1 where c: "c < cells s"
    and a: "forEach B n c 0 (assign c w s) = Some s1"
    and b: "exec B n k s1 = Some s'"
    by (auto split: option.splits if_splits)
  from "4.IH"(1) [OF c a j] "4.IH"(2) [OF c a b j] show ?case using c by (simp add: m)
next
  case (5 B n e k s)
  from "5.prems" obtain j where m: "m = Suc j" and j: "n \<le> j" by (cases m) auto
  from "5.prems"(1) obtain s1
    where a: "exec B n (B e) (emit (Started e) (s\<lparr>activeEffect := Some e\<rparr>)) = Some s1"
      and b: "exec B n k (s1\<lparr>activeEffect := None\<rparr>) = Some s'"
    by (auto split: option.splits)
  from "5.IH"(1) [OF a j] "5.IH"(2) [OF a b j] show ?case by (simp add: m)
next
  case (6 B n v k s)
  from "6.prems" obtain j where m: "m = Suc j" and j: "n \<le> j" by (cases m) auto
  from "6.prems"(1) have a: "exec B n (k (fst (createSignal v s))) (snd (createSignal v s)) = Some s'"
    by simp
  from "6.IH" [OF a j] show ?case by (simp add: m)
next
  case (7 B c i s)
  then show ?case by simp
next
  case (8 B n c i s)
  from "8.prems" obtain j where m: "m = Suc j" and j: "n \<le> j" by (cases m) auto
  show ?case
  proof (cases "i < length (subscribers s c)")
    case True
    with "8.prems"(1) obtain s1
      where a: "exec B n (B (subscribers s c ! i)) (emit (Rerun c (subscribers s c ! i)) s) = Some s1"
        and b: "forEach B n c (Suc i) s1 = Some s'"
      by (auto split: option.splits)
    from "8.IH"(1) [OF True a j] "8.IH"(2) [OF True a b j] show ?thesis using True by (simp add: m)
  next
    case False
    with "8.prems"(1) show ?thesis by (simp add: m)
  qed
qed

lemma invokeAll_mono:
  "invokeAll B n c es s = Some s' \<Longrightarrow> n \<le> m \<Longrightarrow> invokeAll B m c es s = Some s'"
proof (induction es arbitrary: s)
  case Nil
  then show ?case by simp
next
  case (Cons e es)
  from Cons.prems(1) obtain s1 where a: "invoke B n c e s = Some s1"
    and b: "invokeAll B n c es s1 = Some s'"
    by (auto split: option.splits)
  have "invoke B m c e s = Some s1" using a Cons.prems(2) unfolding invoke_def by (rule exec_mono(1))
  with Cons.IH [OF b Cons.prems(2)] show ?case by simp
qed

lemma invoke_grows: "invoke B n d e s = Some s' \<Longrightarrow> grows c s s'"
  unfolding invoke_def
  using exec_grows(1) [of B n "B e" "emit (Rerun d e) s" s' c] grows_trans [OF grows_step(4)]
  by blast

lemma invokeAll_grows: "invokeAll B n d es s = Some s' \<Longrightarrow> grows c s s'"
proof (induction es arbitrary: s)
  case Nil
  then show ?case by (simp add: grows_refl)
next
  case (Cons e es)
  from Cons.prems obtain s1 where a: "invoke B n d e s = Some s1"
    and b: "invokeAll B n d es s1 = Some s'"
    by (auto split: option.splits)
  from grows_trans [OF invoke_grows [OF a] Cons.IH [OF b]] show ?case .
qed

lemma forEach_invokeAll:
  "forEach B n c i s = Some s' \<Longrightarrow> c < cells s \<Longrightarrow>
   invokeAll B n c (drop i (subscribers s' c)) s = Some s'"
proof (induction n arbitrary: i s)
  case 0
  then show ?case by simp
next
  case (Suc n)
  show ?case
  proof (cases "i < length (subscribers s c)")
    case True
    let ?e = "subscribers s c ! i"
    from True Suc.prems(1) obtain s1 where a: "invoke B n c ?e s = Some s1"
      and b: "forEach B n c (Suc i) s1 = Some s'"
      unfolding invoke_def by (auto split: option.splits)
    have g1: "grows c s s1" using a by (rule invoke_grows)
    have g2: "grows c s1 s'" using b by (rule exec_grows(2))
    have c1: "c < cells s1" using g1 Suc.prems(2) by (simp add: grows_def)
    from grows_trans [OF g1 g2] Suc.prems(2) obtain ys where
      ys: "subscribers s' c = subscribers s c @ ys" by (auto simp: grows_def)
    have d: "drop i (subscribers s' c) = ?e # drop (Suc i) (subscribers s' c)"
      unfolding ys using True by (simp add: Cons_nth_drop_Suc [symmetric] nth_append)
    have "invokeAll B n c (drop (Suc i) (subscribers s' c)) s1 = Some s'"
      using Suc.IH [OF b c1] .
    then have "invokeAll B (Suc n) c (drop (Suc i) (subscribers s' c)) s1 = Some s'"
      by (rule invokeAll_mono) simp
    moreover have "invoke B (Suc n) c ?e s = Some s1"
      using a unfolding invoke_def by (rule exec_mono(1)) simp
    ultimately show ?thesis unfolding d by simp
  next
    case False
    with Suc.prems(1) have s': "s' = s" by simp
    show ?thesis using False by (simp add: s')
  qed
qed

lemma invokeAll_forEach:
  "invokeAll B n c (drop i (subscribers s c)) s = Some s' \<Longrightarrow> c < cells s \<Longrightarrow>
   subscribers s' c = subscribers s c \<Longrightarrow>
   forEach B (n + length (drop i (subscribers s c)) + 1) c i s = Some s'"
proof (induction "length (subscribers s c) - i" arbitrary: i s)
  case 0
  then have "drop i (subscribers s c) = []" by simp
  with "0.prems"(1) show ?case by simp
next
  case (Suc k)
  let ?xs = "subscribers s c"
  let ?e = "?xs ! i"
  have i: "i < length ?xs" using Suc.hyps(2) by simp
  have d: "drop i ?xs = ?e # drop (Suc i) ?xs" using i by (simp add: Cons_nth_drop_Suc)
  from Suc.prems(1) obtain s1 where a: "invoke B n c ?e s = Some s1"
    and b: "invokeAll B n c (drop (Suc i) ?xs) s1 = Some s'"
    unfolding d by (auto split: option.splits)
  have g1: "grows c s s1" using a by (rule invoke_grows)
  have g2: "grows c s1 s'" using b by (rule invokeAll_grows)
  have c1: "c < cells s1" using g1 Suc.prems(2) by (simp add: grows_def)
  from g1 Suc.prems(2) obtain ys where ys: "subscribers s1 c = ?xs @ ys" by (auto simp: grows_def)
  from g2 c1 obtain zs where zs: "subscribers s' c = subscribers s1 c @ zs" by (auto simp: grows_def)
  have same: "subscribers s1 c = ?xs" using ys zs Suc.prems(3) by simp
  have k: "k = length (subscribers s1 c) - Suc i" using Suc.hyps(2) same by simp
  have b': "invokeAll B n c (drop (Suc i) (subscribers s1 c)) s1 = Some s'" using b same by simp
  have s': "subscribers s' c = subscribers s1 c" using Suc.prems(3) same by simp
  let ?m = "n + length (drop (Suc i) ?xs) + 1"
  have f: "forEach B ?m c (Suc i) s1 = Some s'"
    using Suc.hyps(1) [OF k b' c1 s'] same by simp
  have "exec B ?m (B ?e) (emit (Rerun c ?e) s) = Some s1"
    using a unfolding invoke_def by (rule exec_mono(1)) simp
  then have fe: "forEach B (Suc ?m) c i s = Some s'" using i f by simp
  have eq: "n + length (drop i ?xs) + 1 = Suc ?m" using i by simp
  show ?case by (subst eq) (rule fe)
qed


lemma count_list_distinct: "distinct xs \<Longrightarrow> x \<in> set xs \<Longrightarrow> count_list xs x = 1"
  by (induction xs) (auto simp: count_list_0_iff)

lemma reads_occ:
  "occ ev (reads cs s) =
     occ ev s + (case ev of ReadBy d a \<Rightarrow> if a = activeEffect s then count_list cs d else 0 | _ \<Rightarrow> 0)"
proof (induction cs arbitrary: s)
  case Nil
  then show ?case by (simp split: event.splits)
next
  case (Cons c cs)
  show ?case unfolding reads.simps Cons.IH by (auto simp: get_facts split: event.splits)
qed

lemma exec_writeAll_reads:
  assumes b: "B e = readAll cs Done"
  shows "tuned e cs s \<Longrightarrow> set (map fst ws) \<subseteq> set cs \<Longrightarrow> length ws + length cs + 2 < n \<Longrightarrow>
         \<exists>s'. exec B n (writeAll ws Done) s = Some s' \<and> tuned e cs s' \<and>
              reruns e s' = reruns e s + length ws \<and> occ (Started e) s' = occ (Started e) s \<and>
              (\<forall>d a. occ (ReadBy d a) s' =
                 occ (ReadBy d a) s + (if a = None then count_list cs d * length ws else 0))"
proof (induction ws arbitrary: s n)
  case Nil
  then show ?case by (cases n) simp_all
next
  case (Cons x ws)
  obtain c w where x: "x = (c, w)" by (cases x)
  obtain m where nm: "n = Suc m" and m: "length ws + length cs + 2 < m"
    using Cons.prems(3) by (cases n) auto
  have c: "c \<in> set cs" using Cons.prems(2) x by simp
  have t0: "tuned e cs (assign c w s)" using Cons.prems(1) by (simp add: tuned_def assign_facts)
  let ?s1 = "reads cs (emit (Rerun c e) (assign c w s))"
  have fe: "forEach B m c 0 (assign c w s) = Some ?s1"
    using b t0 c by (rule forEach_single) (use m in simp)
  have t1: "tuned e cs ?s1"
    using t0 by (simp add: tuned_def reads_facts reads_idle)
  have r1: "reruns e ?s1 = reruns e s + 1"
    by (simp add: reads_facts) (simp add: reruns_def emit_def assign_def Let_def is_rerun_def)
  have o1: "occ (Started e) ?s1 = occ (Started e) s"
    by (simp add: reads_facts assign_facts)
  have a0: "activeEffect (emit (Rerun c e) (assign c w s)) = None"
    using t0 by (simp add: tuned_def)
  have q1: "\<And>d a. occ (ReadBy d a) ?s1 =
      occ (ReadBy d a) s + (if a = None then count_list cs d else 0)"
    unfolding reads_occ a0 by (auto simp: assign_facts)
  from Cons.IH [OF t1 _ m] Cons.prems(2) obtain s' where
    e1: "exec B m (writeAll ws Done) ?s1 = Some s'" and e2: "tuned e cs s'"
    and e3: "reruns e s' = reruns e ?s1 + length ws"
    and e4: "occ (Started e) s' = occ (Started e) ?s1"
    and e5: "\<forall>d a. occ (ReadBy d a) s' =
                 occ (ReadBy d a) ?s1 + (if a = None then count_list cs d * length ws else 0)"
    by auto
  have cs: "c < cells s" using Cons.prems(1) c by (simp add: tuned_def)
  have run: "exec B n (writeAll (x # ws) Done) s = Some s'"
    unfolding x nm using fe e1 cs by simp
  have q: "\<forall>d a. occ (ReadBy d a) s' =
      occ (ReadBy d a) s + (if a = None then count_list cs d * length (x # ws) else 0)"
    using e5 q1 by simp
  from run e2 e3 r1 e4 o1 q show ?case by simp
qed

lemma effect_then_writes_reads:
  assumes b: "B e = readAll cs Done"
    and empty: "\<forall>c \<in> set cs. c < cells s \<and> subscribers s c = []"
    and ws: "set (map fst ws) \<subseteq> set cs"
    and n: "length ws + length cs + 3 < n"
  shows "\<exists>s'. exec B n (Effect e (writeAll ws Done)) s = Some s' \<and>
              reruns e s' = reruns e s + length ws \<and> occ (Started e) s' = occ (Started e) s + 1 \<and>
              (\<forall>d. occ (ReadBy d (Some e)) s' = occ (ReadBy d (Some e)) s + count_list cs d \<and>
                   occ (ReadBy d None) s' = occ (ReadBy d None) s + count_list cs d * length ws)"
proof -
  obtain m where nm: "n = Suc m" and m: "length ws + length cs + 2 < m"
    using n by (cases n) auto
  let ?s0 = "emit (Started e) (s\<lparr>activeEffect := Some e\<rparr>)"
  let ?s1 = "reads cs ?s0"
  let ?s2 = "?s1\<lparr>activeEffect := None\<rparr>"
  have body: "exec B m (B e) ?s0 = Some ?s1"
    unfolding b by (rule exec_readAll) (use m empty in simp_all)
  have "\<forall>c \<in> set cs. c < cells ?s1 \<and> subscribers ?s1 c = [e]"
    using empty by (simp add: reads_active reads_facts add_def)
  then have t: "tuned e cs ?s2" by (simp add: tuned_def)
  have r: "reruns e ?s2 = reruns e s"
    using reads_facts(3) [of e cs ?s0]
    by (simp add: reruns_def emit_def is_rerun_def)
  have o: "occ (Started e) ?s2 = occ (Started e) s + 1"
    using reads_facts(4) [of e cs ?s0] by simp
  have q: "\<And>d a. occ (ReadBy d a) ?s2 =
      occ (ReadBy d a) s + (if a = Some e then count_list cs d else 0)"
    by (auto simp: reads_occ)
  from exec_writeAll_reads [of B, OF b t ws m] obtain s' where
    f1: "exec B m (writeAll ws Done) ?s2 = Some s'" and f2: "reruns e s' = reruns e ?s2 + length ws"
    and f3: "occ (Started e) s' = occ (Started e) ?s2"
    and f4: "\<forall>d a. occ (ReadBy d a) s' =
                 occ (ReadBy d a) ?s2 + (if a = None then count_list cs d * length ws else 0)"
    by blast
  have run: "exec B n (Effect e (writeAll ws Done)) s = Some s'"
    unfolding nm using body f1 by simp
  have "\<forall>d. occ (ReadBy d (Some e)) s' = occ (ReadBy d (Some e)) s + count_list cs d \<and>
            occ (ReadBy d None) s' = occ (ReadBy d None) s + count_list cs d * length ws"
    using f4 q by simp
  with run f2 r f3 o show ?thesis by simp
qed

lemma write_invokes:
  assumes run: "exec B n (Write c w k) s1 = Some s2" and d: "distinct (subscribers s1 c)"
  shows "\<exists>t. invokeAll B n c (subscribers t c) (assign c w s1) = Some t \<and> exec B n k t = Some s2 \<and>
           distinct (subscribers t c) \<and> set (subscribers s1 c) \<subseteq> set (subscribers t c) \<and>
           (e \<in> set (subscribers s1 c) \<longrightarrow>
              occ (Wrote c) s1 < occ (Wrote c) t \<and>
              occ (Rerun c e) t - occ (Rerun c e) s1 = occ (Wrote c) t - occ (Wrote c) s1)"
proof -
  obtain m where n: "n = Suc m" using run by (cases n) auto
  have c: "c < cells s1" using run unfolding n by (simp split: if_splits)
  from run c obtain t where fe: "forEach B m c 0 (assign c w s1) = Some t"
    and rest: "exec B m k t = Some s2"
    unfolding n by (auto split: option.splits)
  have c0: "c < cells (assign c w s1)" using c by (simp add: assign_facts)
  have "invokeAll B m c (drop 0 (subscribers t c)) (assign c w s1) = Some t"
    using fe c0 by (rule forEach_invokeAll)
  then have i: "invokeAll B n c (subscribers t c) (assign c w s1) = Some t"
    using invokeAll_mono [of B m c "subscribers t c" "assign c w s1" t n] by (simp add: n)
  have k: "exec B n k t = Some s2" using rest by (rule exec_mono(1)) (simp add: n)
  have g: "grows c (assign c w s1) t" using fe by (rule exec_grows(2))
  then obtain ys where ys: "subscribers t c = subscribers s1 c @ ys"
    and dt: "distinct (subscribers t c)"
    using c0 d by (auto simp: grows_def assign_facts)
  have sub: "set (subscribers s1 c) \<subseteq> set (subscribers t c)" unfolding ys by simp
  have cnt: "e \<in> set (subscribers s1 c) \<longrightarrow>
              occ (Wrote c) s1 < occ (Wrote c) t \<and>
              occ (Rerun c e) t - occ (Rerun c e) s1 = occ (Wrote c) t - occ (Wrote c) s1"
  proof
    assume e: "e \<in> set (subscribers s1 c)"
    have "occ (Wrote c) (assign c w s1) \<le> occ (Wrote c) t" using g unfolding grows_def by blast
    then have w: "occ (Wrote c) s1 < occ (Wrote c) t" by (simp add: assign_facts)
    have e0: "e \<in> set (subscribers (assign c w s1) c)"
      and d0: "distinct (subscribers (assign c w s1) c)"
      using e d by (simp_all add: assign_facts)
    have "occ (Rerun c e) t + occ (Wrote c) (assign c w s1) =
          occ (Rerun c e) (assign c w s1) + occ (Wrote c) t +
          (if c = c \<and> e \<in> set (drop 0 (subscribers (assign c w s1) c)) then 1 else 0)"
      using fe c0 e0 d0 by (rule once_per_write(2))
    then have "occ (Rerun c e) t + occ (Wrote c) s1 = occ (Rerun c e) s1 + occ (Wrote c) t"
      using e by (simp add: assign_facts)
    with w show "occ (Wrote c) s1 < occ (Wrote c) t \<and>
              occ (Rerun c e) t - occ (Rerun c e) s1 = occ (Wrote c) t - occ (Wrote c) s1"
      by linarith
  qed
  from i k dt sub cnt show ?thesis by blast
qed

lemma invocations_return:
  assumes c: "c < cells s1"
    and i: "invokeAll B n c (subscribers s1 c) (assign c w s1) = Some t"
    and same: "subscribers t c = subscribers s1 c"
    and k: "exec B n k t = Some s2"
  shows "exec B (n + length (subscribers s1 c) + 2) (Write c w k) s1 = Some s2"
proof -
  let ?m = "n + length (subscribers s1 c) + 1"
  have "invokeAll B n c (drop 0 (subscribers (assign c w s1) c)) (assign c w s1) = Some t"
    using i by (simp add: assign_facts)
  moreover have "c < cells (assign c w s1)" using c by (simp add: assign_facts)
  moreover have "subscribers t c = subscribers (assign c w s1) c" using same by (simp add: assign_facts)
  ultimately have "forEach B (n + length (drop 0 (subscribers (assign c w s1) c)) + 1) c 0
      (assign c w s1) = Some t"
    by (rule invokeAll_forEach)
  then have fe: "forEach B ?m c 0 (assign c w s1) = Some t" by (simp add: assign_facts)
  have "exec B ?m k t = Some s2" using k by (rule exec_mono(1)) simp
  then have "exec B (Suc ?m) (Write c w k) s1 = Some s2" using fe c by simp
  moreover have "Suc ?m = n + length (subscribers s1 c) + 2" by simp
  ultimately show ?thesis by metis
qed

lemma exec_Done: "exec B n Done s = Some s' \<Longrightarrow> s' = s"
  by (cases n) auto

lemma untilEffect_append:
  "untilEffect (xs @ ys) = (if untilEffect xs = xs then xs @ untilEffect ys else untilEffect xs)"
  unfolding untilEffect_def by (induction xs) auto

lemma upto_refl: "upto s s"
  by (simp add: upto_def grows_refl untilEffect_def)

lemma upto_trans:
  assumes a: "upto s s1" and b: "upto s1 s2"
  shows "upto s s2"
proof -
  from a obtain e1 where g1: "\<forall>c. grows c s s1" and t1: "trace s1 = trace s @ e1"
    and r1: "\<forall>c a. ReadBy c a \<in> set (untilEffect e1) \<longrightarrow>
           a = activeEffect s \<and> c < cells s1 \<and> (\<forall>x. a = Some x \<longrightarrow> x \<in> set (subscribers s1 c))"
    and k1: "untilEffect e1 = e1 \<longrightarrow> activeEffect s1 = activeEffect s"
    unfolding upto_def by blast
  from b obtain e2 where g2: "\<forall>c. grows c s1 s2" and t2: "trace s2 = trace s1 @ e2"
    and r2: "\<forall>c a. ReadBy c a \<in> set (untilEffect e2) \<longrightarrow>
           a = activeEffect s1 \<and> c < cells s2 \<and> (\<forall>x. a = Some x \<longrightarrow> x \<in> set (subscribers s2 c))"
    and k2: "untilEffect e2 = e2 \<longrightarrow> activeEffect s2 = activeEffect s1"
    unfolding upto_def by blast
  have g: "\<forall>c. grows c s s2" using g1 g2 grows_trans by blast
  have t: "trace s2 = trace s @ (e1 @ e2)" using t1 t2 by simp
  have keep: "\<And>c x. c < cells s1 \<Longrightarrow> x \<in> set (subscribers s1 c) \<Longrightarrow>
      c < cells s2 \<and> x \<in> set (subscribers s2 c)"
  proof -
    fix c x assume c: "c < cells s1" and x: "x \<in> set (subscribers s1 c)"
    have gc: "grows c s1 s2" using g2 by blast
    then obtain ys where "subscribers s2 c = subscribers s1 c @ ys" "cells s1 \<le> cells s2"
      using c unfolding grows_def by blast
    then show "c < cells s2 \<and> x \<in> set (subscribers s2 c)" using c x by simp
  qed
  have le: "cells s1 \<le> cells s2" using g2 unfolding grows_def by blast
  have r: "\<forall>c a. ReadBy c a \<in> set (untilEffect (e1 @ e2)) \<longrightarrow>
           a = activeEffect s \<and> c < cells s2 \<and> (\<forall>x. a = Some x \<longrightarrow> x \<in> set (subscribers s2 c))"
  proof (intro allI impI)
    fix c a assume m: "ReadBy c a \<in> set (untilEffect (e1 @ e2))"
    show "a = activeEffect s \<and> c < cells s2 \<and> (\<forall>x. a = Some x \<longrightarrow> x \<in> set (subscribers s2 c))"
    proof (cases "untilEffect e1 = e1")
      case True
      then have "ReadBy c a \<in> set (untilEffect e1) \<or> ReadBy c a \<in> set (untilEffect e2)"
        using m by (auto simp: untilEffect_append)
      then show ?thesis
      proof
        assume "ReadBy c a \<in> set (untilEffect e1)"
        with r1 have "a = activeEffect s" "c < cells s1"
          "\<forall>x. a = Some x \<longrightarrow> x \<in> set (subscribers s1 c)" by blast+
        then show ?thesis using keep le by (meson less_le_trans)
      next
        assume "ReadBy c a \<in> set (untilEffect e2)"
        with r2 have "a = activeEffect s1" "c < cells s2"
          "\<forall>x. a = Some x \<longrightarrow> x \<in> set (subscribers s2 c)" by blast+
        then show ?thesis using k1 True by simp
      qed
    next
      case False
      then have "ReadBy c a \<in> set (untilEffect e1)" using m by (simp add: untilEffect_append)
      with r1 have "a = activeEffect s" "c < cells s1"
        "\<forall>x. a = Some x \<longrightarrow> x \<in> set (subscribers s1 c)" by blast+
      then show ?thesis using keep le by (meson less_le_trans)
    qed
  qed
  have k: "untilEffect (e1 @ e2) = e1 @ e2 \<longrightarrow> activeEffect s2 = activeEffect s"
  proof
    assume h: "untilEffect (e1 @ e2) = e1 @ e2"
    have l: "length (untilEffect e1) \<le> length e1" "length (untilEffect e2) \<le> length e2"
      unfolding untilEffect_def by (simp_all add: length_takeWhile_le)
    have u1: "untilEffect e1 = e1"
    proof (rule ccontr)
      assume n: "untilEffect e1 \<noteq> e1"
      then have "untilEffect e1 = e1 @ e2" using h by (simp add: untilEffect_append)
      then have "e2 = []" using l(1) by (metis append_eq_conv_conj length_append le_add1 le_antisym
            append_self_conv take_all)
      then show False using n h by simp
    qed
    then have "untilEffect e2 = e2" using h by (simp add: untilEffect_append)
    with u1 k1 k2 show "activeEffect s2 = activeEffect s" by simp
  qed
  from g t r k show ?thesis unfolding upto_def by blast
qed


lemma trace_facts:
  "trace (emit ev s) = trace s @ [ev]"
  "trace (snd (get c s)) = trace s @ [ReadBy c (activeEffect s)]"
  "trace (assign c w s) = trace s @ [Wrote c]"
  "trace (snd (createSignal v s)) = trace s"
  by (simp_all add: emit_def get_def assign_def createSignal_def Let_def split: option.splits)

lemma upto_step:
  "c < cells s \<Longrightarrow> upto s (snd (get c s))"
  "upto s (assign c w s)"
  "upto s (snd (createSignal v s))"
  "upto s (emit (Rerun c e) s)"
proof -
  show "c < cells s \<Longrightarrow> upto s (snd (get c s))"
    unfolding upto_def
    by (intro conjI allI grows_step exI [of _ "[ReadBy c (activeEffect s)]"])
       (auto simp: trace_facts untilEffect_def is_started_def get_facts add_def split: option.splits)
  show "upto s (assign c w s)"
    unfolding upto_def
    by (intro conjI allI grows_step exI [of _ "[Wrote c]"])
       (auto simp: trace_facts untilEffect_def is_started_def assign_facts)
  show "upto s (snd (createSignal v s))"
    unfolding upto_def
    by (intro conjI allI grows_step exI [of _ "[]"])
       (auto simp: trace_facts untilEffect_def createSignal_facts)
  show "upto s (emit (Rerun c e) s)"
    unfolding upto_def
    by (intro conjI allI grows_step exI [of _ "[Rerun c e]"])
       (auto simp: trace_facts untilEffect_def is_started_def)
qed

lemma upto_effect:
  assumes "upto (emit (Started e) (s\<lparr>activeEffect := Some e\<rparr>)) s1"
  shows "upto s (s1\<lparr>activeEffect := None\<rparr>)"
proof -
  let ?s0 = "emit (Started e) (s\<lparr>activeEffect := Some e\<rparr>)"
  from assms obtain evs where g: "\<forall>c. grows c ?s0 s1" and t: "trace s1 = trace ?s0 @ evs"
    unfolding upto_def by blast
  have gg: "\<forall>c. grows c s (s1\<lparr>activeEffect := None\<rparr>)"
  proof
    fix c
    have "grows c s ?s0" using grows_trans [OF grows_step(5) grows_step(4)] .
    moreover have "grows c ?s0 s1" using g by blast
    ultimately have "grows c s s1" by (rule grows_trans)
    then show "grows c s (s1\<lparr>activeEffect := None\<rparr>)" using grows_step(5) by (rule grows_trans)
  qed
  have tt: "trace (s1\<lparr>activeEffect := None\<rparr>) = trace s @ (Started e # evs)"
    using t by (simp add: trace_facts)
  have u: "untilEffect (Started e # evs) = []" by (simp add: untilEffect_def is_started_def)
  show ?thesis unfolding upto_def
    by (intro conjI gg exI [of _ "Started e # evs"] tt) (simp_all add: u)
qed

lemma exec_upto:
  "exec B n p s = Some s' \<Longrightarrow> upto s s'"
  "forEach B n d i s = Some s' \<Longrightarrow> upto s s'"
proof -
  show "exec B n p s = Some s' \<Longrightarrow> upto s s'"
    by (rule exec_rel(1) [where R = upto, OF upto_refl upto_trans upto_step upto_effect])
  show "forEach B n d i s = Some s' \<Longrightarrow> upto s s'"
    by (rule exec_rel(2) [where R = upto, OF upto_refl upto_trans upto_step upto_effect])
qed

text \<open>
  Claim C2, amended. \<^verbatim>\<open>createEffect(fn)\<close> puts \<open>fn\<close> into the slot, calls it once and
  empties the slot, whatever \<open>fn\<close> does: the state it returns is the state after one run of
  the body of \<open>fn\<close>, started with \<open>fn\<close> in the slot, with the slot emptied. Every read made
  in that run before the first further call of \<^verbatim>\<open>createEffect\<close>, at any depth, also inside
  effects re-run by writes, saw \<open>fn\<close> in the slot and left \<open>fn\<close> subscribed to the cell read.
  When no further call is made, these are all the reads of the run.
\<close>

theorem effect_reads_register_until_nested_effect:
  assumes run: "exec B n (Effect fn Done) s = Some s'"
  shows "activeEffect s' = None \<and>
         (\<exists>m s1. exec B m (B fn) (emit (Started fn) (s\<lparr>activeEffect := Some fn\<rparr>)) = Some s1 \<and>
                 s' = s1\<lparr>activeEffect := None\<rparr>) \<and>
         (\<exists>evs. trace s' = trace s @ Started fn # evs \<and>
                (\<forall>c a. ReadBy c a \<in> set (untilEffect evs) \<longrightarrow>
                   a = Some fn \<and> fn \<in> set (subscribers s' c)))"
proof -
  let ?s0 = "emit (Started fn) (s\<lparr>activeEffect := Some fn\<rparr>)"
  from run obtain m s1 where a: "exec B m (B fn) ?s0 = Some s1"
    and s': "s' = s1\<lparr>activeEffect := None\<rparr>"
    by (rule exec_Effect_Done)
  have "upto ?s0 s1" using a by (rule exec_upto(1))
  then obtain evs where t: "trace s1 = trace ?s0 @ evs"
    and r: "\<forall>c a. ReadBy c a \<in> set (untilEffect evs) \<longrightarrow>
           a = activeEffect ?s0 \<and> c < cells s1 \<and> (\<forall>x. a = Some x \<longrightarrow> x \<in> set (subscribers s1 c))"
    unfolding upto_def by blast
  have one: "activeEffect s' = None" by (simp add: s')
  have two: "\<exists>m s1. exec B m (B fn) ?s0 = Some s1 \<and> s' = s1\<lparr>activeEffect := None\<rparr>"
    using a s' by blast
  have tr: "trace s' = trace s @ Started fn # evs" using t by (simp add: s' trace_facts)
  have rd: "\<forall>c a. ReadBy c a \<in> set (untilEffect evs) \<longrightarrow>
                   a = Some fn \<and> fn \<in> set (subscribers s' c)"
    using r by (simp add: s')
  from one two tr rd show ?thesis by blast
qed

text \<open>
  Claim C10, amended. The writer does not assign the slot. If no \<^verbatim>\<open>createEffect\<close> call is
  made during the fan-out, the slot is the same after the write and every read made by the
  re-runs saw the slot as it was when the write was issued. If the write was issued with
  the slot empty and \<^verbatim>\<open>createEffect\<close> is not called for effect \<open>e\<close> during the fan-out, no
  cell gains \<open>e\<close> as a subscriber.
\<close>

theorem fanout_leaves_slot:
  assumes run: "exec B n (Write c w Done) s = Some s'"
  shows "((\<forall>g. occ (Started g) s' = occ (Started g) s) \<longrightarrow>
            activeEffect s' = activeEffect s \<and>
            (\<forall>d a. fresh (ReadBy d a) s s' \<longrightarrow> a = activeEffect s)) \<and>
         (activeEffect s = None \<and> occ (Started e) s' = occ (Started e) s \<longrightarrow>
            (\<forall>d. e \<in> set (subscribers s' d) \<longrightarrow> e \<in> set (subscribers s d)))"
proof -
  have "steady s s'" using run by (rule exec_steady(1))
  then have one: "(\<forall>g. occ (Started g) s' = occ (Started g) s) \<longrightarrow>
            activeEffect s' = activeEffect s \<and>
            (\<forall>d a. fresh (ReadBy d a) s s' \<longrightarrow> a = activeEffect s)"
    unfolding steady_def by blast
  have "origin s s'" using run by (rule exec_origin(1))
  then have two: "activeEffect s = None \<and> occ (Started e) s' = occ (Started e) s \<longrightarrow>
            (\<forall>d. e \<in> set (subscribers s' d) \<longrightarrow> e \<in> set (subscribers s d))"
    unfolding origin_def fresh_def by (metis less_irrefl option.distinct(1))
  from one two show ?thesis by blast
qed

text \<open>
  Claim C1. (1) A read made while \<open>e\<close> is in the slot leaves \<open>e\<close> in the subscriber set of
  the cell. (2) A write that returns has called the subscribers of the cell, each once, in
  the order of the set: the state \<open>t\<close> in which the writer returns is the one that
  \<open>invokeAll\<close> gives for the subscriber set as it is in \<open>t\<close>, in which no effect stands twice
  and every earlier subscriber still stands; and a subscriber \<open>e\<close> has been called once for
  every write to that cell made until the writer returns, the write itself and any write
  to the same cell nested in the fan-out. (3) Conversely the writer returns whenever the
  calls of the subscribers return and none of them subscribes a further effect to the
  cell. (4) If the body of \<open>e\<close> reads the distinct cells \<open>cs\<close>, none of which has a subscriber
  yet, then \<^verbatim>\<open>createEffect(e)\<close> followed by one write to each of these cells in sequence
  returns; the writers have called \<open>e\<close> as many times as there are cells, and each cell has
  been read once with \<open>e\<close> in the slot and once more, with the slot empty, in every one of
  these calls.
\<close>

theorem subscriber_rerun_once_per_write:
  "(activeEffect s = Some e \<longrightarrow> e \<in> set (subscribers (snd (get c s)) c)) \<and>
   (distinct (subscribers s1 c) \<and> exec B n (Write c w k) s1 = Some s2 \<longrightarrow>
      (\<exists>t. invokeAll B n c (subscribers t c) (assign c w s1) = Some t \<and> exec B n k t = Some s2 \<and>
           distinct (subscribers t c) \<and> set (subscribers s1 c) \<subseteq> set (subscribers t c) \<and>
           (e \<in> set (subscribers s1 c) \<longrightarrow>
              occ (Wrote c) s1 < occ (Wrote c) t \<and>
              occ (Rerun c e) t - occ (Rerun c e) s1 = occ (Wrote c) t - occ (Wrote c) s1))) \<and>
   (c < cells s5 \<and> invokeAll B n c (subscribers s5 c) (assign c w s5) = Some s6 \<and>
    subscribers s6 c = subscribers s5 c \<and> exec B n k s6 = Some s7 \<longrightarrow>
      exec B (n + length (subscribers s5 c) + 2) (Write c w k) s5 = Some s7) \<and>
   (B e = readAll cs Done \<and> distinct cs \<and>
    (\<forall>d \<in> set cs. d < cells s3 \<and> subscribers s3 d = []) \<and> 2 * length cs + 3 < m \<longrightarrow>
      (\<exists>s4. exec B m (Effect e (writeAll (map (\<lambda>d. (d, u d)) cs) Done)) s3 = Some s4 \<and>
            reruns e s4 = reruns e s3 + length cs \<and>
            (\<forall>d \<in> set cs. occ (ReadBy d (Some e)) s4 = occ (ReadBy d (Some e)) s3 + 1 \<and>
                          occ (ReadBy d None) s4 = occ (ReadBy d None) s3 + length cs)))"
proof (intro conjI impI)
  assume "activeEffect s = Some e"
  then show "e \<in> set (subscribers (snd (get c s)) c)"
    by (simp add: get_facts add_def)
next
  assume h: "distinct (subscribers s1 c) \<and> exec B n (Write c w k) s1 = Some s2"
  then have run: "exec B n (Write c w k) s1 = Some s2" and d: "distinct (subscribers s1 c)"
    by simp_all
  from run d show "\<exists>t. invokeAll B n c (subscribers t c) (assign c w s1) = Some t \<and>
           exec B n k t = Some s2 \<and>
           distinct (subscribers t c) \<and> set (subscribers s1 c) \<subseteq> set (subscribers t c) \<and>
           (e \<in> set (subscribers s1 c) \<longrightarrow>
              occ (Wrote c) s1 < occ (Wrote c) t \<and>
              occ (Rerun c e) t - occ (Rerun c e) s1 = occ (Wrote c) t - occ (Wrote c) s1)"
    by (rule write_invokes)
next
  assume h: "c < cells s5 \<and> invokeAll B n c (subscribers s5 c) (assign c w s5) = Some s6 \<and>
    subscribers s6 c = subscribers s5 c \<and> exec B n k s6 = Some s7"
  then have "c < cells s5" "invokeAll B n c (subscribers s5 c) (assign c w s5) = Some s6"
    "subscribers s6 c = subscribers s5 c" "exec B n k s6 = Some s7"
    by simp_all
  then show "exec B (n + length (subscribers s5 c) + 2) (Write c w k) s5 = Some s7"
    by (rule invocations_return)
next
  assume h: "B e = readAll cs Done \<and> distinct cs \<and>
    (\<forall>d \<in> set cs. d < cells s3 \<and> subscribers s3 d = []) \<and> 2 * length cs + 3 < m"
  let ?ws = "map (\<lambda>d. (d, u d)) cs"
  have b: "B e = readAll cs Done" using h by simp
  have dc: "distinct cs" using h by simp
  have em: "\<forall>d \<in> set cs. d < cells s3 \<and> subscribers s3 d = []" using h by simp
  have ws: "set (map fst ?ws) \<subseteq> set cs" by (simp add: comp_def)
  have m: "length ?ws + length cs + 3 < m" using h by simp
  from effect_then_writes_reads [of B, OF b em ws m] obtain s4 where
    r: "exec B m (Effect e (writeAll ?ws Done)) s3 = Some s4"
    and n: "reruns e s4 = reruns e s3 + length ?ws"
    and q: "\<forall>d. occ (ReadBy d (Some e)) s4 = occ (ReadBy d (Some e)) s3 + count_list cs d \<and>
                occ (ReadBy d None) s4 = occ (ReadBy d None) s3 + count_list cs d * length ?ws"
    by blast
  have one: "\<And>d. d \<in> set cs \<Longrightarrow> count_list cs d = 1"
    using dc by (rule count_list_distinct)
  have "\<forall>d \<in> set cs. occ (ReadBy d (Some e)) s4 = occ (ReadBy d (Some e)) s3 + 1 \<and>
                          occ (ReadBy d None) s4 = occ (ReadBy d None) s3 + length cs"
    using q one by simp
  with r n show "\<exists>s4. exec B m (Effect e (writeAll ?ws Done)) s3 = Some s4 \<and>
            reruns e s4 = reruns e s3 + length cs \<and>
            (\<forall>d \<in> set cs. occ (ReadBy d (Some e)) s4 = occ (ReadBy d (Some e)) s3 + 1 \<and>
                          occ (ReadBy d None) s4 = occ (ReadBy d None) s3 + length cs)"
    by auto
qed

text \<open>
  Claim C2 as stated fails: effect 0 calls \<^verbatim>\<open>createEffect\<close> for effect 1 and then reads
  cell 0. The read of cell 1 inside effect 1 registers effect 1, the read of cell 0 is made
  with an empty slot, and effect 0 is subscribed to neither.
\<close>

theorem nested_effect_read_unregistered:
  "exec nested 6 (Effect 0 Done) (init 2) \<noteq> None \<and>
   trace (the (exec nested 6 (Effect 0 Done) (init 2))) =
     [Started 0, Started 1, ReadBy 1 (Some 1), ReadBy 0 None] \<and>
   subscribers (the (exec nested 6 (Effect 0 Done) (init 2))) 0 = [] \<and>
   subscribers (the (exec nested 6 (Effect 0 Done) (init 2))) 1 = [1]"
  by code_simp

text \<open>
  Claim C10 as stated fails: the write is made inside the first run of effect 0, the
  fan-out re-runs effect 0 while it is still in the slot, and cell 1, read for the first
  time in that re-run, gains effect 0 as a subscriber.
\<close>

theorem rerun_inside_own_effect_registers:
  "exec selfwrite 8 (Effect 0 Done) (init 2) \<noteq> None \<and>
   trace (the (exec selfwrite 8 (Effect 0 Done) (init 2))) =
     [Started 0, ReadBy 0 (Some 0), Wrote 0, Rerun 0 0, ReadBy 0 (Some 0), ReadBy 1 (Some 0)] \<and>
   subscribers (init 2) 1 = [] \<and>
   subscribers (the (exec selfwrite 8 (Effect 0 Done) (init 2))) 1 = [0]"
  by code_simp

text \<open>Instances of the three theorems.\<close>

theorem effect_reads_register_until_nested_effect_witness:
  "exec readThenNest 7 (Effect 0 Done) (init 3) \<noteq> None \<and>
   trace (the (exec readThenNest 7 (Effect 0 Done) (init 3))) =
     [Started 0, ReadBy 0 (Some 0), Started 1, ReadBy 1 (Some 1), ReadBy 2 None] \<and>
   untilEffect [ReadBy 0 (Some 0), Started 1, ReadBy 1 (Some 1), ReadBy 2 None] =
     [ReadBy 0 (Some 0)] \<and>
   activeEffect (the (exec readThenNest 7 (Effect 0 Done) (init 3))) = None \<and>
   0 \<in> set (subscribers (the (exec readThenNest 7 (Effect 0 Done) (init 3))) 0)"
proof -
  let ?r = "exec readThenNest 7 (Effect 0 Done) (init 3)"
  have ne: "?r \<noteq> None" by code_simp
  then have run: "?r = Some (the ?r)" by simp
  have tr: "trace (the ?r) = [Started 0, ReadBy 0 (Some 0), Started 1, ReadBy 1 (Some 1), ReadBy 2 None]"
    by code_simp
  have u: "untilEffect [ReadBy 0 (Some 0), Started 1, ReadBy 1 (Some 1), ReadBy 2 None] =
     [ReadBy 0 (Some 0)]"
    by (simp add: untilEffect_def is_started_def)
  note t = effect_reads_register_until_nested_effect [OF run]
  from t have slot: "activeEffect (the ?r) = None" by (elim conjE)
  from t obtain evs where e: "trace (the ?r) = trace (init 3) @ Started 0 # evs"
    and r: "\<forall>c a. ReadBy c a \<in> set (untilEffect evs) \<longrightarrow>
                   a = Some 0 \<and> 0 \<in> set (subscribers (the ?r) c)"
    by (elim conjE exE)
  have "evs = [ReadBy 0 (Some 0), Started 1, ReadBy 1 (Some 1), ReadBy 2 None]"
    using e unfolding tr by (simp add: init_def)
  then have "ReadBy 0 (Some 0) \<in> set (untilEffect evs)" using u by simp
  with r have reg: "0 \<in> set (subscribers (the ?r) 0)" by blast
  from ne tr u slot reg show ?thesis by (intro conjI)
qed

theorem fanout_leaves_slot_witness:
  "exec (reader [1]) 6 (Write 0 (Lit 3) Done) subscribed \<noteq> None \<and>
   activeEffect subscribed = None \<and>
   activeEffect (the (exec (reader [1]) 6 (Write 0 (Lit 3) Done) subscribed)) = None \<and>
   fresh (ReadBy 1 None) subscribed (the (exec (reader [1]) 6 (Write 0 (Lit 3) Done) subscribed)) \<and>
   0 \<notin> set (subscribers (the (exec (reader [1]) 6 (Write 0 (Lit 3) Done) subscribed)) 1)"
proof -
  let ?r = "exec (reader [1]) 6 (Write 0 (Lit 3) Done) subscribed"
  have ne: "?r \<noteq> None" by code_simp
  then have run: "?r = Some (the ?r)" by simp
  have tr: "trace (the ?r) = [Wrote 0, Rerun 0 0, ReadBy 1 None]" by code_simp
  have no: "\<forall>g. occ (Started g) (the ?r) = occ (Started g) subscribed"
    unfolding occ_def tr by (simp add: init_def subscribed_def)
  have fr: "fresh (ReadBy 1 None) subscribed (the ?r)"
    unfolding fresh_def occ_def tr by (simp add: init_def subscribed_def)
  have a: "activeEffect subscribed = None" by (simp add: subscribed_def init_def)
  have s: "0 \<notin> set (subscribers subscribed 1)" by (simp add: subscribed_def init_def)
  from fanout_leaves_slot [OF run, of 0] no a s ne fr show ?thesis by metis
qed

theorem subscriber_rerun_once_per_write_witness:
  "0 \<in> set (subscribers (snd (get 0 ((init 1)\<lparr>activeEffect := Some 0\<rparr>))) 0) \<and>
   exec copier 6 (Write 0 (Lit 3) Done) subscribed \<noteq> None \<and>
   val (the (exec copier 6 (Write 0 (Lit 3) Done) subscribed)) 1 = 3 \<and>
   invokeAll copier 6 0 [0] (assign 0 (Lit 3) subscribed) =
     exec copier 6 (Write 0 (Lit 3) Done) subscribed \<and>
   occ (Rerun 0 0) (the (exec copier 6 (Write 0 (Lit 3) Done) subscribed)) -
     occ (Rerun 0 0) subscribed = 1 \<and>
   invokeAll copier 4 0 [0] (assign 0 (Lit 3) subscribed) \<noteq> None \<and>
   exec copier 7 (Write 0 (Lit 3) Done) subscribed =
     invokeAll copier 4 0 [0] (assign 0 (Lit 3) subscribed) \<and>
   (\<exists>s4. exec (reader [1, 2]) 8 (Effect 0 (writeAll (map (\<lambda>d. (d, Lit 7)) [1, 2]) Done)) (init 3)
            = Some s4 \<and> reruns 0 s4 = reruns 0 (init 3) + 2 \<and>
          occ (ReadBy 1 None) s4 = 2 \<and> occ (ReadBy 2 (Some 0)) s4 = 1)"
proof -
  let ?a = "(init 1)\<lparr>activeEffect := Some 0\<rparr>"
  let ?r = "exec copier 6 (Write 0 (Lit 3) Done) subscribed"
  let ?i = "invokeAll copier 4 0 [0] (assign 0 (Lit 3) subscribed)"
  have sub: "subscribers subscribed 0 = [0]" by (simp add: subscribed_def init_def)
  have cells: "(0::nat) < cells subscribed" by (simp add: subscribed_def init_def)
  have h1: "activeEffect ?a = Some 0" by simp
  note p1 = subscriber_rerun_once_per_write [where s = ?a and e = 0 and c = 0,
      THEN conjunct1, THEN mp, OF h1]
  have ne: "?r \<noteq> None" by code_simp
  then have run: "?r = Some (the ?r)" by simp
  have v: "val (the ?r) 1 = 3" by code_simp
  have w: "occ (Wrote 0) (the ?r) - occ (Wrote 0) subscribed = 1" by code_simp
  have sr: "subscribers (the ?r) 0 = [0]" by code_simp
  have h2: "distinct (subscribers subscribed 0) \<and> ?r = Some (the ?r)"
    using run by (simp add: sub)
  note p2 = subscriber_rerun_once_per_write [where ?s1.0 = subscribed and c = 0 and B = copier
      and n = 6 and w = "Lit 3" and k = Done and ?s2.0 = "the ?r" and e = 0,
      THEN conjunct2, THEN conjunct1, THEN mp, OF h2]
  from p2 obtain t where
    t1: "invokeAll copier 6 0 (subscribers t 0) (assign 0 (Lit 3) subscribed) = Some t"
    and t2: "exec copier 6 Done t = Some (the ?r)"
    and t3: "0 \<in> set (subscribers subscribed 0) \<longrightarrow>
               occ (Wrote 0) subscribed < occ (Wrote 0) t \<and>
               occ (Rerun 0 0) t - occ (Rerun 0 0) subscribed =
               occ (Wrote 0) t - occ (Wrote 0) subscribed"
    by (elim exE conjE)
  have t: "t = the ?r" using exec_Done [OF t2] by simp
  have q2: "invokeAll copier 6 0 [0] (assign 0 (Lit 3) subscribed) = ?r"
    using t1 run unfolding t sr by simp
  have q3: "occ (Rerun 0 0) (the ?r) - occ (Rerun 0 0) subscribed = 1"
    using t3 w unfolding t by (simp add: sub)
  have ni: "?i \<noteq> None" by code_simp
  then have runi: "?i = Some (the ?i)" by simp
  have si: "subscribers (the ?i) 0 = [0]" by code_simp
  have h3: "(0::nat) < cells subscribed \<and>
      invokeAll copier 4 0 (subscribers subscribed 0) (assign 0 (Lit 3) subscribed) = Some (the ?i) \<and>
      subscribers (the ?i) 0 = subscribers subscribed 0 \<and>
      exec copier 4 Done (the ?i) = Some (the ?i)"
    using cells runi si unfolding sub by (simp add: numeral_eq_Suc)
  note p3 = subscriber_rerun_once_per_write [where ?s5.0 = subscribed and c = 0 and B = copier
      and n = 4 and w = "Lit 3" and k = Done and ?s6.0 = "the ?i" and ?s7.0 = "the ?i",
      THEN conjunct2, THEN conjunct2, THEN conjunct1, THEN mp, OF h3]
  have q4: "exec copier 7 (Write 0 (Lit 3) Done) subscribed = ?i"
    using p3 runi unfolding sub by simp
  have h4: "reader [1, 2] 0 = readAll [1, 2] Done \<and> distinct [1, 2 :: nat] \<and>
    (\<forall>d \<in> set [1, 2]. d < cells (init 3) \<and> subscribers (init 3) d = []) \<and>
    2 * length [1, 2 :: nat] + 3 < 8"
    by (simp add: reader_def init_def)
  note p4 = subscriber_rerun_once_per_write [where B = "reader [1, 2]" and e = 0 and cs = "[1, 2]"
      and ?s3.0 = "init 3" and m = 8 and u = "\<lambda>_. Lit 7",
      THEN conjunct2, THEN conjunct2, THEN conjunct2, THEN mp, OF h4]
  from p4 obtain s4 where
    u1: "exec (reader [1, 2]) 8 (Effect 0 (writeAll (map (\<lambda>d. (d, Lit 7)) [1, 2]) Done)) (init 3)
           = Some s4"
    and u2: "reruns 0 s4 = reruns 0 (init 3) + length [1, 2 :: nat]"
    and u3: "\<forall>d \<in> set [1, 2]. occ (ReadBy d (Some 0)) s4 = occ (ReadBy d (Some 0)) (init 3) + 1 \<and>
               occ (ReadBy d None) s4 = occ (ReadBy d None) (init 3) + length [1, 2 :: nat]"
    by (elim exE conjE)
  have z: "\<And>ev. occ ev (init 3) = 0" by (simp add: occ_def init_def)
  have q5: "\<exists>s4. exec (reader [1, 2]) 8 (Effect 0 (writeAll (map (\<lambda>d. (d, Lit 7)) [1, 2]) Done)) (init 3)
            = Some s4 \<and> reruns 0 s4 = reruns 0 (init 3) + 2 \<and>
          occ (ReadBy 1 None) s4 = 2 \<and> occ (ReadBy 2 (Some 0)) s4 = 1"
    using u1 u2 u3 by (intro exI [of _ s4]) (simp add: z)
  from p1 ne v q2 q3 ni q4 q5 show ?thesis by (intro conjI)
qed
section \<open>Properties of the node builder\<close>

lemma andThen_simps [simp]:
  "andThen (Inr x) f = f x"
  "andThen (Inl e) f = Inl e"
  by (simp_all add: andThen_def)

lemma alloc_fst [simp]: "fst (alloc k d) = nextNode d"
  by (simp add: alloc_def Let_def)

lemma alloc_nextNode [simp]: "nextNode (snd (alloc k d)) = Suc (nextNode d)"
  by (simp add: alloc_def Let_def)

lemma createElement_valid:
  "validName tag \<Longrightarrow>
   createElement tag d = Inr (nextNode d, snd (alloc (Element (toLowerCase tag)) d))"
  by (simp add: createElement_def alloc_def Let_def)

lemma nextNode_set [simp]:
  "nextNode (set_id n i d) = nextNode d"
  "nextNode (set_className n c d) = nextNode d"
  "nextNode (appendChild p n d) = nextNode d"
  "nextNode (detach n d) = nextNode d"
  "nextNode (addEventListener n ev h d) = nextNode d"
  by (simp_all add: set_id_def set_className_def appendChild_def detach_def Let_def
      addEventListener_def)

lemma path_parts: "split CHR ''>'' ''div#root.a.b>span.c'' = [''div#root.a.b'', ''span.c'']"
  by code_simp

lemma path_match:
  "regexMatch ''div#root.a.b'' = (Some ''div'', Some ''root'', Some ''a.b'')"
  "regexMatch ''span.c'' = (Some ''span'', None, Some ''c'')"
  by code_simp+

lemma path_classes:
  "join '' '' (split CHR ''.'' ''a.b'') = ''a b''"
  "join '' '' (split CHR ''.'' ''c'') = ''c''"
  "tokens ''a b'' = [''a'', ''b'']"
  "tokens ''c'' = [''c'']"
  by code_simp+

lemma path_tags:
  "validName ''div''" "toLowerCase ''div'' = ''div''"
  "validName ''span''" "toLowerCase ''span'' = ''span''"
  by code_simp+


lemma parseEmmet_path:
  "parseEmmet ''div#root.a.b>span.c'' d = Inr (nextNode d, Suc (nextNode d), built d)"
  by (simp add: parseEmmet_def path_parts path_match createElement_valid path_tags Let_def
      built_def path_classes)

lemma built_facts:
  "nextNode (built d) = Suc (Suc (nextNode d))"
  "kind (built d) (nextNode d) = Element ''div''"
  "ident (built d) (nextNode d) = ''root''"
  "classList (built d) (nextNode d) = [''a'', ''b'']"
  "childNodes (built d) (nextNode d) = [Suc (nextNode d)]"
  "attrs (built d) (nextNode d) = []"
  "listeners (built d) (nextNode d) = []"
  "kind (built d) (Suc (nextNode d)) = Element ''span''"
  "ident (built d) (Suc (nextNode d)) = []"
  "classList (built d) (Suc (nextNode d)) = [''c'']"
  "childNodes (built d) (Suc (nextNode d)) = []"
  "attrs (built d) (Suc (nextNode d)) = []"
  "listeners (built d) (Suc (nextNode d)) = []"
  by (simp_all add: built_def alloc_def set_id_def set_className_def appendChild_def detach_def
      Let_def path_classes)


lemma token_k: "\<not> isSpace CHR ''k''" "validName ''title''" "toLowerCase ''title'' = ''title''"
  by code_simp+

text \<open>
  Claim C7. In any document, the builder called with the tag path
  \<^verbatim>\<open>div#root.a.b>span.c\<close> returns a new \<^verbatim>\<open>div\<close> with id \<^verbatim>\<open>root\<close> and the classes
  \<^verbatim>\<open>a\<close> and \<^verbatim>\<open>b\<close>, whose only child is a new \<^verbatim>\<open>span\<close> with the class \<^verbatim>\<open>c\<close>. Given a
  child, a class, a listener and an attribute as well, it puts all four on the \<^verbatim>\<open>span\<close> and
  leaves the \<^verbatim>\<open>div\<close> as it was.
\<close>

theorem tag_path_chain:
  "(case createComponent env (plain ''div#root.a.b>span.c'') d of
      Inl e \<Rightarrow> False
    | Inr (root, bs, d') \<Rightarrow>
        root = nextNode d \<and> kind d' root = Element ''div'' \<and> ident d' root = ''root'' \<and>
        set (classList d' root) = {''a'', ''b''} \<and> childNodes d' root = [Suc root] \<and>
        kind d' (Suc root) = Element ''span'' \<and> set (classList d' (Suc root)) = {''c''} \<and>
        childNodes d' (Suc root) = []) \<and>
   (case createComponent env
           ((plain ''div#root.a.b>span.c'')
              \<lparr>children := Some (Static (Many [Str s])),
               classes := Some (OneClass (Class ''k'')),
               events := Some [(ev, h)],
               attributes := Some [(''title'', Attr v)]\<rparr>) d of
      Inl e \<Rightarrow> False
    | Inr (root, bs, d') \<Rightarrow>
        root = nextNode d \<and>
        set (classList d' root) = {''a'', ''b''} \<and> childNodes d' root = [Suc root] \<and>
        attrs d' root = [] \<and> listeners d' root = [] \<and>
        set (classList d' (Suc root)) = {''c'', ''k''} \<and>
        listeners d' (Suc root) = [(ev, h)] \<and>
        attrs d' (Suc root) = [(''title'', v)] \<and>
        childNodes d' (Suc root) = [Suc (Suc root)] \<and> kind d' (Suc (Suc root)) = Text s)"
proof -
  have plain: "createComponent env (plain ''div#root.a.b>span.c'') d =
      Inr (nextNode d, [], built d)"
    by (simp add: createComponent_def plain_def parseEmmet_path applyClasses_def
        applyAttributes_def applyEvents_def applyChildren_def)
  let ?el = "Suc (nextNode d)"
  let ?dA = "built d\<lparr>classList := (classList (built d))(?el := classList (built d) ?el @ [''k''])\<rparr>"
  let ?dB = "addEventListener ?el ev h ?dA"
  let ?dC = "?dB\<lparr>attrs := (attrs ?dB)(?el := AList.update ''title'' v (attrs ?dB ?el))\<rparr>"
  let ?d4 = "addChildren ?el (Many [Str s]) ?dC"
  have full: "createComponent env
           ((plain ''div#root.a.b>span.c'')
              \<lparr>children := Some (Static (Many [Str s])),
               classes := Some (OneClass (Class ''k'')),
               events := Some [(ev, h)],
               attributes := Some [(''title'', Attr v)]\<rparr>) d = Inr (nextNode d, [], ?d4)"
    by (simp add: createComponent_def plain_def parseEmmet_path applyClasses_def
        applyAttributes_def applyEvents_def applyChildren_def addClass_def classList_add_def
        token_k built_facts applyAttribute_def setAttribute_def falsy_def)
  have facts: "set (classList ?d4 (nextNode d)) = {''a'', ''b''}"
    "childNodes ?d4 (nextNode d) = [Suc (nextNode d)]"
    "attrs ?d4 (nextNode d) = []" "listeners ?d4 (nextNode d) = []"
    "set (classList ?d4 (Suc (nextNode d))) = {''c'', ''k''}"
    "listeners ?d4 (Suc (nextNode d)) = [(ev, h)]"
    "attrs ?d4 (Suc (nextNode d)) = [(''title'', v)]"
    "childNodes ?d4 (Suc (nextNode d)) = [Suc (Suc (nextNode d))]"
    "kind ?d4 (Suc (Suc (nextNode d))) = Text s"
    by (simp_all add: addChildren_def addChild_def createTextNode_def split_def
        appendChild_def detach_def alloc_def Let_def addEventListener_def built_facts)
  show ?thesis
    unfolding plain full using facts by (simp add: built_facts)
qed

lemma classEffect_step:
  assumes v: "validToken x" "validToken y" and ne: "x \<noteq> y"
    and z: "str env = Some z" "z = x \<or> z = y"
    and inv: "(r = None \<and> x \<notin> set (classList d el) \<and> y \<notin> set (classList d el)) \<or>
              ((r = Some x \<or> r = Some y) \<and> r \<noteq> None \<and>
               (x \<in> set (classList d el)) = (r = Some x) \<and>
               (y \<in> set (classList d el)) = (r = Some y))"
  shows "\<exists>d'. classEffect el str env (r, d) = Inr (Some z, d') \<and>
              (x \<in> set (classList d' el)) = (z = x) \<and> (y \<in> set (classList d' el)) = (z = y)"
  using v ne z inv
  by (auto simp: classEffect_def classList_contains_def classList_add_def classList_remove_def
      validToken_def)


lemma changes_one_class:
  assumes v: "validToken x" "validToken y" and ne: "x \<noteq> y"
  shows "(x \<in> set (classList d el)) = b \<Longrightarrow> (y \<in> set (classList d el)) = (\<not> b) \<Longrightarrow>
    \<exists>d'. changes envs ([ClassEffect el (\<lambda>b. Some (if b then x else y)) (Some (if b then x else y))], d) =
            Inr ([ClassEffect el (\<lambda>b. Some (if b then x else y))
                    (Some (if last (b # envs) then x else y))], d') \<and>
         (x \<in> set (classList d' el)) = last (b # envs) \<and>
         (y \<in> set (classList d' el)) = (\<not> last (b # envs))"
proof (induction envs arbitrary: b d)
  case Nil
  then show ?case by simp
next
  case (Cons e envs)
  let ?f = "\<lambda>b. Some (if b then x else y)"
  have "\<exists>d1. classEffect el ?f e (Some (if b then x else y), d) = Inr (Some (if e then x else y), d1) \<and>
              (x \<in> set (classList d1 el)) = ((if e then x else y) = x) \<and>
              (y \<in> set (classList d1 el)) = ((if e then x else y) = y)"
    using v ne Cons.prems by (intro classEffect_step) auto
  then obtain d1 where
    run: "classEffect el ?f e (Some (if b then x else y), d) = Inr (Some (if e then x else y), d1)"
    and x1: "(x \<in> set (classList d1 el)) = e" and y1: "(y \<in> set (classList d1 el)) = (\<not> e)"
    using ne by (cases e) auto
  from Cons.IH [OF x1 y1] obtain d' where
    "changes envs ([ClassEffect el ?f (Some (if e then x else y))], d1) =
            Inr ([ClassEffect el ?f (Some (if last (e # envs) then x else y))], d')"
    "(x \<in> set (classList d' el)) = last (e # envs)"
    "(y \<in> set (classList d' el)) = (\<not> last (e # envs))"
    by blast
  then show ?case using run by (simp add: rerun_def)
qed

lemma same_refl: "same x y el d d"
  by (simp add: same_def)

lemma same_trans: "same x y el d d1 \<Longrightarrow> same x y el d1 d2 \<Longrightarrow> same x y el d d2"
  by (simp add: same_def)

lemma same_carries: "carries x y el t d \<Longrightarrow> same x y el d d' \<Longrightarrow> carries x y el t d'"
  by (simp add: same_def carries_def)

lemma classEffect_other:
  assumes g: "\<forall>env. g env \<noteq> Some x \<and> g env \<noteq> Some y" and r: "r \<noteq> Some x" "r \<noteq> Some y"
    and run: "classEffect n g env (r, d) = Inr (r', d')"
  shows "r' \<noteq> Some x \<and> r' \<noteq> Some y \<and> same x y el d d'"
proof (cases "g env")
  case None
  with run r show ?thesis
    by (auto simp: classEffect_def classList_remove_def same_def
        split: option.splits if_splits)
next
  case (Some s)
  have s: "s \<noteq> x" "s \<noteq> y" using g Some by auto
  from run Some r s show ?thesis
    by (auto simp: classEffect_def classList_contains_def classList_add_def classList_remove_def
        same_def andThen_def split: option.splits if_splits sum.splits)
qed

lemma setAttribute_same:
  "toLowerCase a \<noteq> ''class'' \<Longrightarrow> setAttribute n a v d = Inr d' \<Longrightarrow> same x y el d d'"
  by (auto simp: setAttribute_def Let_def set_id_def same_def split: if_splits)

lemma removeAttribute_same:
  "toLowerCase a \<noteq> ''class'' \<Longrightarrow> same x y el d (removeAttribute n a d)"
  by (auto simp: removeAttribute_def Let_def set_id_def same_def)

lemma rerun_other:
  assumes o: "other x y b" and run: "rerun env (b, d) = Inr (b', d')"
  shows "other x y b' \<and> same x y el d d'"
proof (cases b)
  case (ClassEffect n g r)
  from run obtain r' where c: "classEffect n g env (r, d) = Inr (r', d')"
    and b': "b' = ClassEffect n g r'"
    unfolding ClassEffect rerun_def by (auto simp: andThen_def split: sum.splits)
  have "r' \<noteq> Some x \<and> r' \<noteq> Some y \<and> same x y el d d'"
    using o c unfolding ClassEffect other_def by (intro classEffect_other [of g x y r n env d]) auto
  then show ?thesis using o unfolding b' ClassEffect other_def by simp
next
  case (AttrEffect n a g)
  from run have c: "attrEffect n a g env d = Inr d'" and b': "b' = b"
    unfolding AttrEffect rerun_def by (auto simp: andThen_def split: sum.splits)
  have a: "toLowerCase a \<noteq> ''class''" using o unfolding AttrEffect other_def by simp
  have "same x y el d d'"
    using c a setAttribute_same [of a n _ d d' x y el] removeAttribute_same [of a x y el d n]
    by (auto simp: attrEffect_def split: option.splits)
  then show ?thesis using o b' by simp
qed

lemma rerunAll_others:
  "list_all (other x y) bs \<Longrightarrow> rerunAll env (bs, d) = Inr (bs', d') \<Longrightarrow>
   list_all (other x y) bs' \<and> same x y el d d'"
proof (induction bs arbitrary: d bs')
  case Nil
  then show ?case by (simp add: same_refl)
next
  case (Cons b bs)
  from Cons.prems(2) obtain b1 d1 bs1 where a: "rerun env (b, d) = Inr (b1, d1)"
    and r: "rerunAll env (bs, d1) = Inr (bs1, d')" and e: "bs' = b1 # bs1"
    by (auto simp: andThen_def split: sum.splits)
  have o: "other x y b" "list_all (other x y) bs" using Cons.prems(1) by simp_all
  from rerun_other [OF o(1) a, of el] Cons.IH [OF o(2) r] show ?case
    unfolding e using same_trans by auto
qed

lemma rerunAll_append:
  "rerunAll env (as @ bs, d) = Inr (cs, d') \<Longrightarrow>
   \<exists>as' bs' d1. rerunAll env (as, d) = Inr (as', d1) \<and> rerunAll env (bs, d1) = Inr (bs', d') \<and>
     cs = as' @ bs'"
proof (induction as arbitrary: d cs)
  case Nil
  then show ?case by simp
next
  case (Cons a as)
  from Cons.prems obtain a1 d1 r1 where a: "rerun env (a, d) = Inr (a1, d1)"
    and r: "rerunAll env (as @ bs, d1) = Inr (r1, d')" and e: "cs = a1 # r1"
    by (auto simp: andThen_def split: sum.splits)
  from Cons.IH [OF r] obtain as' bs' d2 where "rerunAll env (as, d1) = Inr (as', d2)"
    "rerunAll env (bs, d2) = Inr (bs', d')" "r1 = as' @ bs'"
    by blast
  then show ?case using a e by simp
qed

lemma classEffect_own:
  assumes ne: "x \<noteq> y" "x \<noteq> []" "y \<noteq> []"
    and z: "f env = Some x \<or> f env = Some y"
    and t: "t = None \<or> t = Some x \<or> t = Some y"
    and c: "carries x y el t d"
    and run: "classEffect el f env (t, d) = Inr (r', d')"
  shows "r' = f env \<and> carries x y el (f env) d'"
proof -
  from z obtain z where fz: "f env = Some z" and zz: "z = x \<or> z = y" by auto
  from t c have mem: "el < nextNode d" "(x \<in> set (classList d el)) = (t = Some x)"
    "(y \<in> set (classList d el)) = (t = Some y)"
    by (simp_all add: carries_def)
  from run obtain d1 d2 where
    s1: "(if \<not> classList_contains el z d then classList_add el z d else Inr d) = Inr d1"
    and s2: "(case t of Some r \<Rightarrow> if r \<noteq> [] \<and> z \<noteq> r then classList_remove el r d1 else Inr d1
              | None \<Rightarrow> Inr d1) = Inr d2"
    and res: "r' = Some z" "d' = d2"
    unfolding classEffect_def fz by (auto simp: andThen_def split: sum.splits)
  have m1: "nextNode d1 = nextNode d" "set (classList d1 el) = insert z (set (classList d el))"
    using s1 by (auto simp: classList_contains_def classList_add_def split: if_splits)
  have "carries x y el (Some z) d2"
  proof (cases t)
    case None
    then have "d2 = d1" using s2 by simp
    then show ?thesis using m1 mem None zz ne by (auto simp: carries_def)
  next
    case (Some r)
    then have rr: "r = x \<or> r = y" using t by auto
    show ?thesis
    proof (cases "z = r")
      case True
      then have "d2 = d1" using s2 Some by simp
      then show ?thesis using m1 mem Some zz ne True by (auto simp: carries_def)
    next
      case False
      have "r \<noteq> []" using rr ne by auto
      then have "classList_remove el r d1 = Inr d2" using s2 Some False by simp
      then have m2: "nextNode d2 = nextNode d1" "set (classList d2 el) = set (classList d1 el) - {r}"
        by (auto simp: classList_remove_def split: if_splits)
      show ?thesis using m1 m2 mem Some zz rr ne False by (auto simp: carries_def)
    qed
  qed
  then show ?thesis using res fz by simp
qed

lemma rerunAll_arranged:
  assumes ne: "x \<noteq> y" "x \<noteq> []" "y \<noteq> []"
    and range: "\<forall>env. f env = Some x \<or> f env = Some y"
    and t: "t = None \<or> t = Some x \<or> t = Some y"
    and a: "arranged x y el f t (bs, d)"
    and run: "rerunAll env (bs, d) = Inr (bs', d')"
  shows "arranged x y el f (f env) (bs', d')"
proof -
  from a obtain o1 o2 where c: "carries x y el t d" and bs: "bs = o1 @ ClassEffect el f t # o2"
    and l1: "list_all (other x y) o1" and l2: "list_all (other x y) o2"
    unfolding arranged_def by (elim case_prodE conjE exE) auto
  from rerunAll_append [OF run [unfolded bs]]
  obtain p1 rest d1 where r1: "rerunAll env (o1, d) = Inr (p1, d1)"
    and r2: "rerunAll env (ClassEffect el f t # o2, d1) = Inr (rest, d')" and e: "bs' = p1 @ rest"
    by (elim exE conjE)
  from rerunAll_others [OF l1 r1, of el] have q1: "list_all (other x y) p1" and s1: "same x y el d d1"
    by simp_all
  have c1: "carries x y el t d1" using c s1 by (rule same_carries)
  from r2 obtain b1 d2 p2 where k0: "rerun env (ClassEffect el f t, d1) = Inr (b1, d2)"
    and r3: "rerunAll env (o2, d2) = Inr (p2, d')" and e2: "rest = b1 # p2"
    by (auto simp: andThen_def split: sum.splits)
  from k0 obtain r' where k: "classEffect el f env (t, d1) = Inr (r', d2)"
    and b1: "b1 = ClassEffect el f r'"
    by (auto simp: rerun_def andThen_def split: sum.splits)
  have z: "f env = Some x \<or> f env = Some y" using range by blast
  from classEffect_own [OF ne z t c1 k] have r': "r' = f env" and c2: "carries x y el (f env) d2"
    by simp_all
  from rerunAll_others [OF l2 r3, of el] have q2: "list_all (other x y) p2" and s2: "same x y el d2 d'"
    by simp_all
  have "carries x y el (f env) d'" using c2 s2 by (rule same_carries)
  moreover have "bs' = p1 @ ClassEffect el f (f env) # p2" using e e2 b1 r' by simp
  ultimately have "carries x y el (f env) d' \<and>
     (\<exists>o1 o2. bs' = o1 @ ClassEffect el f (f env) # o2 \<and>
        list_all (other x y) o1 \<and> list_all (other x y) o2)"
    using q1 q2 by blast
  then show ?thesis unfolding arranged_def by simp
qed

lemma changes_arranged:
  assumes ne: "x \<noteq> y" "x \<noteq> []" "y \<noteq> []"
    and range: "\<forall>env. f env = Some x \<or> f env = Some y"
  shows "arranged x y el f (f env0) bd \<Longrightarrow> changes envs bd = Inr bd' \<Longrightarrow>
         arranged x y el f (f (last (env0 # envs))) bd'"
proof (induction envs arbitrary: env0 bd)
  case Nil
  then show ?case by simp
next
  case (Cons env envs)
  obtain bs d where bd: "bd = (bs, d)" by (cases bd)
  from Cons.prems(2) obtain bs1 d1 where r: "rerunAll env (bs, d) = Inr (bs1, d1)"
    and c: "changes envs (bs1, d1) = Inr bd'"
    unfolding bd by (auto simp: andThen_def split: sum.splits)
  have t: "f env0 = None \<or> f env0 = Some x \<or> f env0 = Some y" using range by blast
  have "arranged x y el f (f env) (bs1, d1)"
    using ne range t Cons.prems(1) r unfolding bd by (rule rerunAll_arranged)
  from Cons.IH [OF this c] show ?case by simp
qed

lemma parseParts_fresh:
  "parseParts parts r c d = Inr (r', c', d') \<Longrightarrow> (\<forall>n. c = Some n \<longrightarrow> n < nextNode d) \<Longrightarrow>
   (\<forall>n. c' = Some n \<longrightarrow> n < nextNode d')"
proof (induction parts arbitrary: r c d)
  case Nil
  then show ?case by simp
next
  case (Cons part parts)
  obtain tagm idm clsm where m: "regexMatch part = (tagm, idm, clsm)" by (cases "regexMatch part")
  let ?tag = "case tagm of None \<Rightarrow> ''div'' | Some t \<Rightarrow> t"
  let ?i = "case idm of None \<Rightarrow> [] | Some x \<Rightarrow> x"
  let ?cls = "case clsm of None \<Rightarrow> [] | Some x \<Rightarrow> x"
  let ?el = "nextNode d"
  let ?d1 = "snd (alloc (Element (toLowerCase ?tag)) d)"
  let ?d2 = "if ?i \<noteq> [] then set_id ?el ?i ?d1 else ?d1"
  let ?d3 = "if ?cls \<noteq> [] then set_className ?el (join '' '' (split CHR ''.'' ?cls)) ?d2 else ?d2"
  let ?d4 = "case r of None \<Rightarrow> ?d3
             | Some x \<Rightarrow> (case c of None \<Rightarrow> ?d3 | Some c0 \<Rightarrow> appendChild c0 ?el ?d3)"
  let ?r2 = "case r of None \<Rightarrow> Some ?el | Some x \<Rightarrow> r"
  have v: "validName ?tag"
    using Cons.prems(1) by (auto simp: m createElement_def Let_def split: if_splits)
  have rec: "parseParts parts ?r2 (Some ?el) ?d4 = Inr (r', c', d')"
    using Cons.prems(1)
    by (cases r; cases c) (simp_all add: m createElement_valid [OF v] Let_def del: if_split)
  have n: "nextNode ?d4 = Suc (nextNode d)" by (cases r; cases c) simp_all
  have "\<forall>n. Some ?el = Some n \<longrightarrow> n < nextNode ?d4" unfolding n by simp
  from Cons.IH [OF rec this] show ?case .
qed

lemma parseEmmet_fresh: "parseEmmet path d = Inr (root, el, d0) \<Longrightarrow> el < nextNode d0"
proof -
  assume a: "parseEmmet path d = Inr (root, el, d0)"
  then obtain r where "parseParts (split CHR ''>'' path) None None d = Inr (r, Some el, d0)"
    unfolding parseEmmet_def by (auto simp: andThen_def split: sum.splits option.splits)
  from parseParts_fresh [OF this] show ?thesis by simp
qed

lemma arranged_extend:
  assumes a: "arranged x y el f t (bs, d)" and s: "same x y el d d'" and o: "list_all (other x y) o3"
  shows "arranged x y el f t (bs @ o3, d')"
proof -
  from a obtain o1 o2 where c: "carries x y el t d" and bs: "bs = o1 @ ClassEffect el f t # o2"
    and l1: "list_all (other x y) o1" and l2: "list_all (other x y) o2"
    unfolding arranged_def by (elim case_prodE conjE exE) auto
  have "carries x y el t d'" using c s by (rule same_carries)
  moreover have "bs @ o3 = o1 @ ClassEffect el f t # (o2 @ o3)" using bs by simp
  moreover have "list_all (other x y) (o2 @ o3)" using l2 o by simp
  ultimately have "carries x y el t d' \<and>
     (\<exists>p1 p2. bs @ o3 = p1 @ ClassEffect el f t # p2 \<and>
        list_all (other x y) p1 \<and> list_all (other x y) p2)"
    using l1 by blast
  then show ?thesis unfolding arranged_def by simp
qed

lemma addClass_avoids:
  assumes a: "avoids x y entry" and run: "addClass n env entry (bs, d) = Inr (bs', d')"
  shows "same x y el d d' \<and> (\<exists>o1. bs' = bs @ o1 \<and> list_all (other x y) o1)"
proof (cases entry)
  case (Class s)
  from a have s: "s \<noteq> x" "s \<noteq> y" unfolding Class avoids_def by simp_all
  from run have "classList_add n s d = Inr d'" and b: "bs' = bs"
    unfolding Class addClass_def by (auto simp: andThen_def split: sum.splits)
  then have "same x y el d d'" using s
    by (auto simp: classList_add_def same_def split: if_splits)
  then show ?thesis using b by simp
next
  case (ClassFn g)
  from a have g: "\<forall>env. g env \<noteq> Some x \<and> g env \<noteq> Some y" unfolding ClassFn avoids_def by simp
  from run obtain r where c: "classEffect n g env (None, d) = Inr (r, d')"
    and b: "bs' = bs @ [ClassEffect n g r]"
    unfolding ClassFn addClass_def by (auto simp: andThen_def split: sum.splits)
  have "r \<noteq> Some x \<and> r \<noteq> Some y \<and> same x y el d d'"
    using g _ _ c by (rule classEffect_other) simp_all
  then show ?thesis using b g by (simp add: other_def)
qed

lemma forEachM_addClass_avoids:
  "list_all (avoids x y) es \<Longrightarrow> forEachM (addClass n env) es (bs, d) = Inr (bs', d') \<Longrightarrow>
   same x y el d d' \<and> (\<exists>o1. bs' = bs @ o1 \<and> list_all (other x y) o1)"
proof (induction es arbitrary: bs d)
  case Nil
  then show ?case by (simp add: same_refl)
next
  case (Cons e es)
  from Cons.prems(2) obtain bs1 d1 where a: "addClass n env e (bs, d) = Inr (bs1, d1)"
    and r: "forEachM (addClass n env) es (bs1, d1) = Inr (bs', d')"
    by (auto simp: andThen_def split: sum.splits)
  have av: "avoids x y e" "list_all (avoids x y) es" using Cons.prems(1) by simp_all
  from addClass_avoids [OF av(1) a, of el] obtain o1 where s1: "same x y el d d1"
    and b1: "bs1 = bs @ o1" and l1: "list_all (other x y) o1"
    by blast
  from Cons.IH [OF av(2) r] obtain o2 where s2: "same x y el d1 d'"
    and b2: "bs' = bs1 @ o2" and l2: "list_all (other x y) o2"
    by blast
  have "same x y el d d'" using s1 s2 by (rule same_trans)
  moreover have "bs' = bs @ (o1 @ o2)" using b1 b2 by simp
  moreover have "list_all (other x y) (o1 @ o2)" using l1 l2 by simp
  ultimately show ?case by blast
qed

lemma forEachM_append:
  "forEachM g (as @ bs) s = andThen (forEachM g as s) (forEachM g bs)"
  by (induction as arbitrary: s) (auto simp: andThen_def split: sum.splits)

lemma applyClasses_entries:
  "cs \<noteq> OneClass (Class []) \<Longrightarrow>
   applyClasses n env (Some cs) bd = forEachM (addClass n env) (entriesOf cs) bd"
proof (cases cs)
  case (OneClass entry)
  assume "cs \<noteq> OneClass (Class [])"
  then have "entry \<noteq> Class []" using OneClass by simp
  then show ?thesis unfolding OneClass
    by (cases entry; cases "addClass n env entry bd")
       (auto simp: applyClasses_def entriesOf_def andThen_def split: list.splits)
next
  case (ManyClasses entries)
  then show ?thesis by (simp add: applyClasses_def entriesOf_def)
qed

lemma applyClasses_arranged:
  assumes ne: "x \<noteq> y" "x \<noteq> []" "y \<noteq> []"
    and z: "f env = Some x \<or> f env = Some y"
    and e: "entriesOf cs = pre @ ClassFn f # post"
    and av: "list_all (avoids x y) pre" "list_all (avoids x y) post"
    and c: "carries x y el None d"
    and run: "applyClasses el env (Some cs) ([], d) = Inr (bs', d')"
  shows "arranged x y el f (f env) (bs', d')"
proof -
  have "cs \<noteq> OneClass (Class [])" using e by (auto simp: entriesOf_def Cons_eq_append_conv)
  then have "forEachM (addClass el env) (pre @ ClassFn f # post) ([], d) = Inr (bs', d')"
    using run e by (simp add: applyClasses_entries)
  then obtain b1 d1 where r1: "forEachM (addClass el env) pre ([], d) = Inr (b1, d1)"
    and r2: "forEachM (addClass el env) (ClassFn f # post) (b1, d1) = Inr (bs', d')"
    unfolding forEachM_append by (auto simp: andThen_def split: sum.splits)
  from forEachM_addClass_avoids [OF av(1) r1, of el]
  have s1: "same x y el d d1" and l1: "list_all (other x y) b1" by auto
  have c1: "carries x y el None d1" using c s1 by (rule same_carries)
  from r2 obtain b2 d2 where a: "addClass el env (ClassFn f) (b1, d1) = Inr (b2, d2)"
    and r3: "forEachM (addClass el env) post (b2, d2) = Inr (bs', d')"
    by (auto simp: andThen_def split: sum.splits)
  from a obtain r where k: "classEffect el f env (None, d1) = Inr (r, d2)"
    and b2: "b2 = b1 @ [ClassEffect el f r]"
    unfolding addClass_def by (auto simp: andThen_def split: sum.splits)
  have "r = f env \<and> carries x y el (f env) d2"
    using ne z _ c1 k by (rule classEffect_own) simp
  then have r: "r = f env" and c2: "carries x y el (f env) d2" by simp_all
  from forEachM_addClass_avoids [OF av(2) r3, of el] obtain o2 where s2: "same x y el d2 d'"
    and b3: "bs' = b2 @ o2" and l2: "list_all (other x y) o2"
    by blast
  have "carries x y el (f env) d'" using c2 s2 by (rule same_carries)
  moreover have "bs' = b1 @ ClassEffect el f (f env) # o2" using b2 b3 r by simp
  ultimately have "carries x y el (f env) d' \<and>
     (\<exists>p1 p2. bs' = p1 @ ClassEffect el f (f env) # p2 \<and>
        list_all (other x y) p1 \<and> list_all (other x y) p2)"
    using l1 l2 by blast
  then show ?thesis unfolding arranged_def by simp
qed

lemma applyEvents_same: "same x y el d (applyEvents n evs d)"
proof (cases evs)
  case None
  then show ?thesis by (simp add: applyEvents_def same_refl)
next
  case (Some es)
  have "same x y el d (fold (\<lambda>(event, h). addEventListener n event h) es d)"
  proof (induction es arbitrary: d)
    case Nil
    then show ?case by (simp add: same_refl)
  next
    case (Cons e es)
    obtain ev h where e: "e = (ev, h)" by (cases e)
    have "same x y el d (addEventListener n ev h d)"
      by (simp add: same_def addEventListener_def)
    from same_trans [OF this Cons.IH] show ?case by (simp add: e)
  qed
  then show ?thesis by (simp add: applyEvents_def Some)
qed

lemma applyAttribute_same:
  assumes a: "toLowerCase (fst entry) \<noteq> ''class''"
    and run: "applyAttribute n env entry (bs, d) = Inr (bs', d')"
  shows "same x y el d d' \<and> (\<exists>o1. bs' = bs @ o1 \<and> list_all (other x y) o1)"
proof -
  obtain name v where e: "entry = (name, v)" by (cases entry)
  have k: "toLowerCase name \<noteq> ''class''" using a by (simp add: e)
  show ?thesis
  proof (cases v)
    case (Attr s)
    from run have "setAttribute n name s d = Inr d'" and b: "bs' = bs"
      unfolding e Attr applyAttribute_def by (auto simp: andThen_def split: sum.splits)
    from setAttribute_same [OF k this(1)] b show ?thesis by simp
  next
    case (AttrNum i)
    from run have "setAttribute n name (decimal i) d = Inr d'" and b: "bs' = bs"
      unfolding e AttrNum applyAttribute_def by (auto simp: andThen_def split: sum.splits)
    from setAttribute_same [OF k this(1)] b show ?thesis by simp
  next
    case (AttrFn g)
    from run have c: "attrEffect n name g env d = Inr d'" and b: "bs' = bs @ [AttrEffect n name g]"
      unfolding e AttrFn applyAttribute_def by (auto simp: andThen_def split: sum.splits)
    have "same x y el d d'"
      using c k setAttribute_same [of name n _ d d' x y el] removeAttribute_same [of name x y el d n]
      by (auto simp: attrEffect_def split: option.splits)
    then show ?thesis using b k by (simp add: other_def)
  qed
qed

lemma forEachM_applyAttribute_same:
  "\<forall>a \<in> set (map fst es). toLowerCase a \<noteq> ''class'' \<Longrightarrow>
   forEachM (applyAttribute n env) es (bs, d) = Inr (bs', d') \<Longrightarrow>
   same x y el d d' \<and> (\<exists>o1. bs' = bs @ o1 \<and> list_all (other x y) o1)"
proof (induction es arbitrary: bs d)
  case Nil
  then show ?case by (simp add: same_refl)
next
  case (Cons e es)
  from Cons.prems(2) obtain bs1 d1 where a: "applyAttribute n env e (bs, d) = Inr (bs1, d1)"
    and r: "forEachM (applyAttribute n env) es (bs1, d1) = Inr (bs', d')"
    by (auto simp: andThen_def split: sum.splits)
  have k: "toLowerCase (fst e) \<noteq> ''class''" "\<forall>a \<in> set (map fst es). toLowerCase a \<noteq> ''class''"
    using Cons.prems(1) by simp_all
  from applyAttribute_same [OF k(1) a, of x y el] obtain o1 where s1: "same x y el d d1"
    and b1: "bs1 = bs @ o1" and l1: "list_all (other x y) o1"
    by blast
  from Cons.IH [OF k(2) r] obtain o2 where s2: "same x y el d1 d'"
    and b2: "bs' = bs1 @ o2" and l2: "list_all (other x y) o2"
    by blast
  have "same x y el d d'" using s1 s2 by (rule same_trans)
  moreover have "bs' = bs @ (o1 @ o2)" using b1 b2 by simp
  moreover have "list_all (other x y) (o1 @ o2)" using l1 l2 by simp
  ultimately show ?case by blast
qed

lemma applyAttributes_same:
  assumes k: "\<forall>a \<in> set (attributeNames opts). toLowerCase a \<noteq> ''class''"
    and run: "applyAttributes n env (attributes opts) (bs, d) = Inr (bs', d')"
  shows "same x y el d d' \<and> (\<exists>o1. bs' = bs @ o1 \<and> list_all (other x y) o1)"
proof (cases "attributes opts")
  case None
  with run show ?thesis by (simp add: applyAttributes_def same_refl)
next
  case (Some es)
  have "\<forall>a \<in> set (map fst es). toLowerCase a \<noteq> ''class''"
    using k by (simp add: attributeNames_def Some)
  moreover have "forEachM (applyAttribute n env) es (bs, d) = Inr (bs', d')"
    using run by (simp add: applyAttributes_def Some)
  ultimately show ?thesis by (rule forEachM_applyAttribute_same)
qed

lemma addChild_same: "el < nextNode d \<Longrightarrow> same x y el d (addChild n c d)"
  by (cases c)
     (auto simp: addChild_def createTextNode_def alloc_def Let_def appendChild_def detach_def
        same_def split: prod.splits)

lemma fold_addChild_same: "el < nextNode d \<Longrightarrow> same x y el d (fold (addChild n) cs d)"
proof (induction cs arbitrary: d)
  case Nil
  then show ?case by (simp add: same_refl)
next
  case (Cons c cs)
  have s: "same x y el d (addChild n c d)" using Cons.prems by (rule addChild_same)
  then have "el < nextNode (addChild n c d)" using Cons.prems by (simp add: same_def)
  from same_trans [OF s Cons.IH [OF this]] show ?case by simp
qed

lemma addChildren_same: "el < nextNode d \<Longrightarrow> same x y el d (addChildren n cs d)"
  by (cases cs) (simp_all add: addChildren_def addChild_same fold_addChild_same)

lemma applyChildren_same:
  assumes k: "keepsClasses el env ch" and n: "el < nextNode d"
    and run: "applyChildren m env ch d = Inr d'"
  shows "same x y el d d'"
proof (cases ch)
  case None
  with run show ?thesis by (simp add: applyChildren_def same_refl)
next
  case (Some c)
  show ?thesis
  proof (cases c)
    case (Static cs)
    with run Some n show ?thesis
      by (auto simp: applyChildren_def same_refl addChildren_same split: if_splits)
  next
    case (Produced g)
    from run obtain cs d1 where a: "g env d = Inr (cs, d1)" and b: "d' = addChildren m cs d1"
      unfolding Some Produced applyChildren_def by (auto simp: andThen_def split: sum.splits)
    from k n a have n1: "el < nextNode d1" and c1: "classList d1 el = classList d el"
      unfolding Some Produced keepsClasses_def by auto
    have "same x y el d d1" using n1 c1 by (simp add: same_def)
    moreover have "same x y el d1 d'" unfolding b using n1 by (rule addChildren_same)
    ultimately show ?thesis by (rule same_trans)
  qed
qed

lemma createComponent_arranged:
  assumes ne: "x \<noteq> y" "x \<noteq> []" "y \<noteq> []"
    and z: "f env = Some x \<or> f env = Some y"
    and parse: "parseEmmet (tagName opts) d = Inr (root, el, d0)"
    and clean: "x \<notin> set (classList d0 el)" "y \<notin> set (classList d0 el)"
    and cls: "classes opts = Some cs" "entriesOf cs = pre @ ClassFn f # post"
    and av: "list_all (avoids x y) (pre @ post)"
    and at: "\<forall>a \<in> set (attributeNames opts). toLowerCase a \<noteq> ''class''"
    and kc: "keepsClasses el env (children opts)"
    and run: "createComponent env opts d = Inr (r, bs, d')"
  shows "r = root \<and> arranged x y el f (f env) (bs, d')"
proof -
  from run obtain bs1 d1 bs2 d2 where
    a1: "applyClasses el env (Some cs) ([], d0) = Inr (bs1, d1)"
    and a2: "applyAttributes el env (attributes opts) (bs1, applyEvents el (events opts) d1) =
               Inr (bs2, d2)"
    and a3: "applyChildren el env (children opts) d2 = Inr d'"
    and r: "r = root" and b: "bs = bs2"
    unfolding createComponent_def parse cls(1) [symmetric]
    by (auto simp: andThen_def split: sum.splits)
  have c0: "carries x y el None d0"
    using parseEmmet_fresh [OF parse] clean by (simp add: carries_def)
  have av2: "list_all (avoids x y) pre" "list_all (avoids x y) post" using av by simp_all
  have g1: "arranged x y el f (f env) (bs1, d1)"
    using ne z cls(2) av2 c0 a1 by (rule applyClasses_arranged)
  from applyAttributes_same [OF at a2, of x y el] obtain o1 where
    s2: "same x y el (applyEvents el (events opts) d1) d2"
    and b2: "bs2 = bs1 @ o1" and l2: "list_all (other x y) o1"
    by blast
  have s12: "same x y el d1 d2" using applyEvents_same s2 by (rule same_trans)
  have n2: "el < nextNode d2"
    using g1 s12 by (simp add: arranged_def carries_def same_def)
  have s3: "same x y el d2 d'" using kc n2 a3 by (rule applyChildren_same)
  have "arranged x y el f (f env) (bs1 @ o1, d')"
    using g1 same_trans [OF s12 s3] l2 by (rule arranged_extend)
  then show ?thesis using r b b2 by simp
qed

lemma collapse3:
  "\<not> isl r \<Longrightarrow> r = Inr (fst (projr r), fst (snd (projr r)), snd (snd (projr r)))"
  by (cases r) auto

lemma collapse2: "\<not> isl r \<Longrightarrow> r = Inr (fst (projr r), snd (projr r))"
  by (cases r) auto

lemma dynamic_class_general:
  assumes ne: "x \<noteq> y" "x \<noteq> []" "y \<noteq> []"
    and range: "\<forall>env. f env = Some x \<or> f env = Some y"
    and parse: "parseEmmet (tagName opts) d = Inr (root, el, d0)"
    and clean: "x \<notin> set (classList d0 el)" "y \<notin> set (classList d0 el)"
    and cls: "classes opts = Some cs" "entriesOf cs = pre @ ClassFn f # post"
    and av: "list_all (avoids x y) (pre @ post)"
    and at: "\<forall>a \<in> set (attributeNames opts). toLowerCase a \<noteq> ''class''"
    and kc: "keepsClasses el env0 (children opts)"
    and run: "andThen (createComponent env0 opts d) (\<lambda>(r, bs, d1). changes envs (bs, d1)) =
                Inr (bs', d')"
  shows "(x \<in> set (classList d' el)) = (f (last (env0 # envs)) = Some x) \<and>
         (y \<in> set (classList d' el)) = (f (last (env0 # envs)) = Some y) \<and>
         (x \<in> set (classList d' el)) = (y \<notin> set (classList d' el))"
proof -
  from run obtain r bs d1 where b: "createComponent env0 opts d = Inr (r, bs, d1)"
    and c: "changes envs (bs, d1) = Inr (bs', d')"
    by (auto simp: andThen_def split: sum.splits)
  have z: "f env0 = Some x \<or> f env0 = Some y" using range by blast
  have "r = root \<and> arranged x y el f (f env0) (bs, d1)"
    using ne z parse clean cls av at kc b by (rule createComponent_arranged)
  then have a: "arranged x y el f (f env0) (bs, d1)" by simp
  have "arranged x y el f (f (last (env0 # envs))) (bs', d')"
    using ne range a c by (rule changes_arranged)
  then have k: "(x \<in> set (classList d' el)) = (f (last (env0 # envs)) = Some x)"
    "(y \<in> set (classList d' el)) = (f (last (env0 # envs)) = Some y)"
    by (simp_all add: arranged_def carries_def)
  have "f (last (env0 # envs)) = Some x \<or> f (last (env0 # envs)) = Some y" using range by blast
  then have "(x \<in> set (classList d' el)) = (y \<notin> set (classList d' el))"
    unfolding k using ne(1) by auto
  with k show ?thesis by simp
qed

lemma dynamic_class_returns:
  assumes v: "validToken x" "validToken y" and ne: "x \<noteq> y"
    and parse: "parseEmmet path d = Inr (root, el, d0)"
    and clean: "x \<notin> set (classList d0 el)" "y \<notin> set (classList d0 el)"
  shows "\<exists>bs d'. andThen (createComponent b (dynamicClass path x y) d)
                    (\<lambda>(r, bs, d1). changes flags (bs, d1)) = Inr (bs, d') \<and>
                 (x \<in> set (classList d' el)) = last (b # flags) \<and>
                 (y \<in> set (classList d' el)) = (\<not> last (b # flags))"
proof -
  let ?f = "\<lambda>b. Some (if b then x else y)"
  have "\<exists>d1. classEffect el ?f b (None, d0) = Inr (Some (if b then x else y), d1) \<and>
              (x \<in> set (classList d1 el)) = ((if b then x else y) = x) \<and>
              (y \<in> set (classList d1 el)) = ((if b then x else y) = y)"
    using v ne clean by (intro classEffect_step) auto
  then obtain d1 where
    run: "classEffect el ?f b (None, d0) = Inr (Some (if b then x else y), d1)"
    and x1: "(x \<in> set (classList d1 el)) = b" and y1: "(y \<in> set (classList d1 el)) = (\<not> b)"
    using ne by (cases b) auto
  have build: "createComponent b (dynamicClass path x y) d =
      Inr (root, [ClassEffect el ?f (Some (if b then x else y))], d1)"
    using parse run
    by (simp add: createComponent_def dynamicClass_def plain_def applyClasses_def addClass_def
        applyEvents_def applyAttributes_def applyChildren_def)
  from changes_one_class [OF v ne x1 y1, of flags] show ?thesis
    unfolding build by auto
qed

text \<open>
  Claim C8, amended. Let \<open>x\<close> and \<open>y\<close> be two different non-empty class tokens and \<open>f\<close> a
  producer that yields one of them for every value of its dependencies. Let nothing else
  give the element to which the builder attaches classes the class \<open>x\<close> or \<open>y\<close>, or rewrite
  its classes: the tag path gives neither, every other entry of \<^verbatim>\<open>classes\<close> is a literal
  other than \<open>x\<close> and \<open>y\<close> or a producer that yields neither, no attribute is named
  \<^verbatim>\<open>class\<close>, and a children producer leaves the classes of the element alone. Then after
  the build and after any sequence of dependency changes, each re-running every effect of
  the component, the element carries exactly one of the two: the one produced last. For a
  component that has nothing but a tag path and the producer, the build and the re-runs
  return whenever \<open>x\<close> and \<open>y\<close> are tokens that \<^verbatim>\<open>classList.add\<close> accepts.
\<close>

theorem dynamic_class_exactly_one:
  "(x \<noteq> y \<and> x \<noteq> [] \<and> y \<noteq> [] \<and> (\<forall>env. f env = Some x \<or> f env = Some y) \<and>
    parseEmmet (tagName opts) d = Inr (root, el, d0) \<and>
    x \<notin> set (classList d0 el) \<and> y \<notin> set (classList d0 el) \<and>
    classes opts = Some cs \<and> entriesOf cs = pre @ ClassFn f # post \<and>
    list_all (avoids x y) (pre @ post) \<and>
    (\<forall>a \<in> set (attributeNames opts). toLowerCase a \<noteq> ''class'') \<and>
    keepsClasses el env0 (children opts) \<and>
    andThen (createComponent env0 opts d) (\<lambda>(r, bs, d1). changes envs (bs, d1)) = Inr (bs', d') \<longrightarrow>
      (x \<in> set (classList d' el)) = (f (last (env0 # envs)) = Some x) \<and>
      (y \<in> set (classList d' el)) = (f (last (env0 # envs)) = Some y) \<and>
      (x \<in> set (classList d' el)) = (y \<notin> set (classList d' el))) \<and>
   (validToken x \<and> validToken y \<and> x \<noteq> y \<and> parseEmmet path d = Inr (root, el, d0) \<and>
    x \<notin> set (classList d0 el) \<and> y \<notin> set (classList d0 el) \<longrightarrow>
      (\<exists>bs d'. andThen (createComponent b (dynamicClass path x y) d)
                    (\<lambda>(r, bs, d1). changes flags (bs, d1)) = Inr (bs, d') \<and>
                 (x \<in> set (classList d' el)) = last (b # flags) \<and>
                 (y \<in> set (classList d' el)) = (\<not> last (b # flags))))"
proof (intro conjI impI)
  assume h: "x \<noteq> y \<and> x \<noteq> [] \<and> y \<noteq> [] \<and> (\<forall>env. f env = Some x \<or> f env = Some y) \<and>
    parseEmmet (tagName opts) d = Inr (root, el, d0) \<and>
    x \<notin> set (classList d0 el) \<and> y \<notin> set (classList d0 el) \<and>
    classes opts = Some cs \<and> entriesOf cs = pre @ ClassFn f # post \<and>
    list_all (avoids x y) (pre @ post) \<and>
    (\<forall>a \<in> set (attributeNames opts). toLowerCase a \<noteq> ''class'') \<and>
    keepsClasses el env0 (children opts) \<and>
    andThen (createComponent env0 opts d) (\<lambda>(r, bs, d1). changes envs (bs, d1)) = Inr (bs', d')"
  then have "x \<noteq> y" "x \<noteq> []" "y \<noteq> []" "\<forall>env. f env = Some x \<or> f env = Some y"
    "parseEmmet (tagName opts) d = Inr (root, el, d0)"
    "x \<notin> set (classList d0 el)" "y \<notin> set (classList d0 el)"
    "classes opts = Some cs" "entriesOf cs = pre @ ClassFn f # post"
    "list_all (avoids x y) (pre @ post)"
    "\<forall>a \<in> set (attributeNames opts). toLowerCase a \<noteq> ''class''"
    "keepsClasses el env0 (children opts)"
    "andThen (createComponent env0 opts d) (\<lambda>(r, bs, d1). changes envs (bs, d1)) = Inr (bs', d')"
    by blast+
  then have g: "(x \<in> set (classList d' el)) = (f (last (env0 # envs)) = Some x) \<and>
         (y \<in> set (classList d' el)) = (f (last (env0 # envs)) = Some y) \<and>
         (x \<in> set (classList d' el)) = (y \<notin> set (classList d' el))"
    by (rule dynamic_class_general)
  from g show "(x \<in> set (classList d' el)) = (f (last (env0 # envs)) = Some x)" by blast
  from g show "(y \<in> set (classList d' el)) = (f (last (env0 # envs)) = Some y)" by blast
  from g show "(x \<in> set (classList d' el)) = (y \<notin> set (classList d' el))" by blast
next
  assume "validToken x \<and> validToken y \<and> x \<noteq> y \<and> parseEmmet path d = Inr (root, el, d0) \<and>
    x \<notin> set (classList d0 el) \<and> y \<notin> set (classList d0 el)"
  then have "validToken x" "validToken y" "x \<noteq> y" "parseEmmet path d = Inr (root, el, d0)"
    "x \<notin> set (classList d0 el)" "y \<notin> set (classList d0 el)"
    by blast+
  then show "\<exists>bs d'. andThen (createComponent b (dynamicClass path x y) d)
                    (\<lambda>(r, bs, d1). changes flags (bs, d1)) = Inr (bs, d') \<and>
                 (x \<in> set (classList d' el)) = last (b # flags) \<and>
                 (y \<in> set (classList d' el)) = (\<not> last (b # flags))"
    by (rule dynamic_class_returns)
qed

text \<open>
  Claim C8 as stated fails in each of three ways. Built from \<^verbatim>\<open>div.y\<close> with a producer
  that yields \<^verbatim>\<open>x\<close> first, the element carries both \<^verbatim>\<open>x\<close> and \<^verbatim>\<open>y\<close> after the first
  production; so it does when \<^verbatim>\<open>y\<close> is a literal entry of \<^verbatim>\<open>classes\<close> beside the
  producer, and when the attribute \<^verbatim>\<open>class\<close> is given as \<^verbatim>\<open>x y\<close>.
\<close>

theorem static_class_breaks_exactly_one:
  "(case createComponent True (dynamicClass ''div.y'' ''x'' ''y'') emptyDocument of
      Inl e \<Rightarrow> False
    | Inr (root, bs, d) \<Rightarrow> ''x'' \<in> set (classList d root) \<and> ''y'' \<in> set (classList d root)) \<and>
   (case createComponent True
           ((dynamicClass ''div'' ''x'' ''y'')
              \<lparr>classes := Some (ManyClasses
                 [Class ''y'', ClassFn (\<lambda>b. Some (if b then ''x'' else ''y''))])\<rparr>) emptyDocument of
      Inl e \<Rightarrow> False
    | Inr (root, bs, d) \<Rightarrow> ''x'' \<in> set (classList d root) \<and> ''y'' \<in> set (classList d root)) \<and>
   (case createComponent True
           ((dynamicClass ''div'' ''x'' ''y'')\<lparr>attributes := Some [(''class'', Attr ''x y'')]\<rparr>)
           emptyDocument of
      Inl e \<Rightarrow> False
    | Inr (root, bs, d) \<Rightarrow> ''x'' \<in> set (classList d root) \<and> ''y'' \<in> set (classList d root))"
  by code_simp

theorem dynamic_class_exactly_one_witness:
  "\<not> isl (parseEmmet ''div.a'' emptyDocument) \<and>
   fst (snd (projr (parseEmmet ''div.a'' emptyDocument))) = 0 \<and>
   \<not> isl (andThen (createComponent True decorated emptyDocument)
            (\<lambda>(r, bs, d1). changes [False, True, False] (bs, d1))) \<and>
   ''x'' \<notin> set (classList (snd (projr (andThen (createComponent True decorated emptyDocument)
            (\<lambda>(r, bs, d1). changes [False, True, False] (bs, d1))))) 0) \<and>
   ''y'' \<in> set (classList (snd (projr (andThen (createComponent True decorated emptyDocument)
            (\<lambda>(r, bs, d1). changes [False, True, False] (bs, d1))))) 0) \<and>
   (\<exists>bs d'. andThen (createComponent True (dynamicClass ''div'' ''x'' ''y'') emptyDocument)
                    (\<lambda>(r, bs, d1). changes [False, True, False] (bs, d1)) = Inr (bs, d') \<and>
            ''x'' \<notin> set (classList d' 0) \<and> ''y'' \<in> set (classList d' 0))"
proof -
  let ?f = "\<lambda>b. Some (if b then ''x'' else ''y'')"
  let ?g = "\<lambda>b. if b then Some ''on'' else None"
  let ?p = "parseEmmet ''div.a'' emptyDocument"
  let ?d0 = "snd (snd (projr ?p))"
  let ?r = "andThen (createComponent True decorated emptyDocument)
            (\<lambda>(r, bs, d1). changes [False, True, False] (bs, d1))"
  have np: "\<not> isl ?p" by code_simp
  have el: "fst (snd (projr ?p)) = 0" by code_simp
  have parse: "parseEmmet (tagName decorated) emptyDocument = Inr (fst (projr ?p), 0, ?d0)"
    using collapse3 [OF np] el by (simp add: decorated_def)
  have clean: "''x'' \<notin> set (classList ?d0 0)" "''y'' \<notin> set (classList ?d0 0)" by code_simp+
  have nr: "\<not> isl ?r" by code_simp
  have run: "?r = Inr (fst (projr ?r), snd (projr ?r))" using nr by (rule collapse2)
  have cls: "classes decorated = Some (ManyClasses [Class ''b'', ClassFn ?f, ClassFn ?g])"
    by (simp add: decorated_def)
  have ent: "entriesOf (ManyClasses [Class ''b'', ClassFn ?f, ClassFn ?g]) =
             [Class ''b''] @ ClassFn ?f # [ClassFn ?g]"
    by (simp add: entriesOf_def)
  have av: "list_all (avoids ''x'' ''y'') ([Class ''b''] @ [ClassFn ?g])"
    by (simp add: avoids_def)
  have at: "\<forall>a \<in> set (attributeNames decorated). toLowerCase a \<noteq> ''class''"
    by (simp add: attributeNames_def decorated_def token_k)
  have kc: "keepsClasses 0 True (children decorated)"
    by (simp add: keepsClasses_def decorated_def)
  have h: "''x'' \<noteq> ''y'' \<and> ''x'' \<noteq> [] \<and> ''y'' \<noteq> [] \<and>
    (\<forall>env. ?f env = Some ''x'' \<or> ?f env = Some ''y'') \<and>
    parseEmmet (tagName decorated) emptyDocument = Inr (fst (projr ?p), 0, ?d0) \<and>
    ''x'' \<notin> set (classList ?d0 0) \<and> ''y'' \<notin> set (classList ?d0 0) \<and>
    classes decorated = Some (ManyClasses [Class ''b'', ClassFn ?f, ClassFn ?g]) \<and>
    entriesOf (ManyClasses [Class ''b'', ClassFn ?f, ClassFn ?g]) =
      [Class ''b''] @ ClassFn ?f # [ClassFn ?g] \<and>
    list_all (avoids ''x'' ''y'') ([Class ''b''] @ [ClassFn ?g]) \<and>
    (\<forall>a \<in> set (attributeNames decorated). toLowerCase a \<noteq> ''class'') \<and>
    keepsClasses 0 True (children decorated) \<and>
    ?r = Inr (fst (projr ?r), snd (projr ?r))"
    using parse clean run cls ent av at kc by (intro conjI) simp_all
  note t1 = dynamic_class_exactly_one [where x = "''x''" and y = "''y''" and f = ?f
      and opts = decorated and d = emptyDocument and root = "fst (projr ?p)" and el = 0
      and ?d0.0 = ?d0 and cs = "ManyClasses [Class ''b'', ClassFn ?f, ClassFn ?g]"
      and pre = "[Class ''b'']" and post = "[ClassFn ?g]" and ?env0.0 = True
      and envs = "[False, True, False]" and bs' = "fst (projr ?r)" and d' = "snd (projr ?r)",
      THEN conjunct1, THEN mp, OF h]
  from t1 have c1: "''x'' \<notin> set (classList (snd (projr ?r)) 0)"
    and c2: "''y'' \<in> set (classList (snd (projr ?r)) 0)"
    by simp_all
  have v: "validToken ''x''" "validToken ''y''" by code_simp+
  have p: "parseEmmet ''div'' emptyDocument = Inr (0, 0, snd (alloc (Element ''div'') emptyDocument))"
  proof -
    have "split CHR ''>'' ''div'' = [''div'']" "regexMatch ''div'' = (Some ''div'', None, None)"
      by code_simp+
    then show ?thesis
      by (simp add: parseEmmet_def createElement_valid path_tags) (simp add: emptyDocument_def)
  qed
  have c: "''x'' \<notin> set (classList (snd (alloc (Element ''div'') emptyDocument)) 0)"
    "''y'' \<notin> set (classList (snd (alloc (Element ''div'') emptyDocument)) 0)"
    by (simp_all add: alloc_def emptyDocument_def)
  have h2: "validToken ''x'' \<and> validToken ''y'' \<and> ''x'' \<noteq> ''y'' \<and>
    parseEmmet ''div'' emptyDocument = Inr (0, 0, snd (alloc (Element ''div'') emptyDocument)) \<and>
    ''x'' \<notin> set (classList (snd (alloc (Element ''div'') emptyDocument)) 0) \<and>
    ''y'' \<notin> set (classList (snd (alloc (Element ''div'') emptyDocument)) 0)"
    using v p c by (intro conjI) simp_all
  note t2 = dynamic_class_exactly_one [where x = "''x''" and y = "''y''" and path = "''div''"
      and d = emptyDocument and root = 0 and el = 0
      and ?d0.0 = "snd (alloc (Element ''div'') emptyDocument)" and b = True
      and flags = "[False, True, False]",
      THEN conjunct2, THEN mp, OF h2]
  have c3: "\<exists>bs d'. andThen (createComponent True (dynamicClass ''div'' ''x'' ''y'') emptyDocument)
                    (\<lambda>(r, bs, d1). changes [False, True, False] (bs, d1)) = Inr (bs, d') \<and>
            ''x'' \<notin> set (classList d' 0) \<and> ''y'' \<in> set (classList d' 0)"
    using t2 by simp
  from np el nr c1 c2 c3 show ?thesis by (intro conjI)
qed
section \<open>Properties of the conditional component\<close>

lemma parentNodeOf_None: "parentNodeOf d x = None \<longleftrightarrow> (\<forall>q < nextNode d. x \<notin> set (childNodes d q))"
  by (auto simp: parentNodeOf_def find_None_iff)

lemma attached_parent: "attached d p m \<Longrightarrow> parentNodeOf d m = Some p"
proof -
  assume a: "attached d p m"
  then have "parentNodeOf d m \<noteq> None" by (auto simp: parentNodeOf_None attached_def)
  then obtain q where q: "parentNodeOf d m = Some q" by blast
  then have "q < nextNode d \<and> m \<in> set (childNodes d q)"
    by (auto simp: parentNodeOf_def find_Some_iff)
  then have "q = p" using a by (auto simp: attached_def)
  with q show ?thesis by simp
qed

lemma attached_contains: "attached d p m \<Longrightarrow> contains d p m"
proof -
  assume a: "attached d p m"
  then obtain k where k: "nextNode d = Suc k" by (cases "nextNode d") (auto simp: attached_def)
  have "climb k d p p" by (cases k) simp_all
  then show ?thesis using attached_parent [OF a] by (simp add: contains_def k)
qed

lemma alloc_adds: "adds d (snd (alloc k d)) (nextNode d)"
  by (auto simp: adds_def alloc_def Let_def)

lemma adds_nextNode: "adds d d1 r \<Longrightarrow> nextNode d < nextNode d1"
  by (auto simp: adds_def)

lemma adds_attached: "adds d d1 r \<Longrightarrow> attached d p m \<Longrightarrow> attached d1 p m"
  unfolding adds_def attached_def
  by (metis leD le_less_linear less_le_trans less_trans)

lemma adds_orphan:
  "adds d d1 r \<Longrightarrow> x < nextNode d \<Longrightarrow> parentNodeOf d x = None \<Longrightarrow> parentNodeOf d1 x = None"
  unfolding adds_def parentNodeOf_None
  by (metis leD le_less_linear)

lemma adds_root_orphan: "adds d d1 r \<Longrightarrow> parentNodeOf d1 r = None"
  by (simp add: adds_def parentNodeOf_None)

lemma replaceChild_marker:
  assumes a: "attached d1 p m" and r: "parentNodeOf d1 r = None" "r < nextNode d1" "r \<noteq> m"
  shows "\<exists>d2. replaceChild p r m d1 = Inr d2 \<and> nextNode d2 = nextNode d1 \<and>
              attached d2 p r \<and> parentNodeOf d2 m = None \<and>
              (\<forall>x. x \<noteq> r \<longrightarrow> parentNodeOf d1 x = None \<longrightarrow> parentNodeOf d2 x = None)"
proof -
  let ?d2 = "(detach r d1)\<lparr>childNodes := (childNodes (detach r d1))
                (p := map (\<lambda>x. if x = m then r else x) (childNodes (detach r d1) p))\<rparr>"
  have m: "m \<in> set (childNodes d1 p)" using a by (simp add: attached_def)
  have run: "replaceChild p r m d1 = Inr ?d2"
    using m r(3) by (simp add: replaceChild_def Let_def)
  have kids: "\<And>q. childNodes ?d2 q =
      (if q = p then map (\<lambda>x. if x = m then r else x) (removeAll r (childNodes d1 p))
       else removeAll r (childNodes d1 q))"
    by (simp add: detach_def)
  have n: "nextNode ?d2 = nextNode d1" by (simp add: detach_def)
  have at: "attached ?d2 p r"
    unfolding attached_def n kids using a r(2,3) m by (auto simp: attached_def)
  have om: "parentNodeOf ?d2 m = None"
    unfolding parentNodeOf_None n kids using a r(3) by (auto simp: attached_def)
  have ox: "\<forall>x. x \<noteq> r \<longrightarrow> parentNodeOf d1 x = None \<longrightarrow> parentNodeOf ?d2 x = None"
    unfolding parentNodeOf_None n kids by auto
  show ?thesis using run n at om ox by blast
qed


lemma oneMarker_step:
  assumes sc: "selfContained opts" and inv: "oneMarker p seen st d"
  shows "\<exists>st1 d1. conditionalEffect opts condition env (st, d) = Inr (st1, d1) \<and>
                 oneMarker p (seen @ held st1) st1 d1 \<and> (elm st1 \<noteq> None) = condition env"
proof -
  from inv obtain m where par: "parentNode st = None \<or> parentNode st = Some p"
    and one: "elm st = None \<or> placeholder st = None"
    and m: "markerOf st = Some m" "attached d p m" "m \<in> set seen"
    and old: "\<forall>x \<in> set seen. x < nextNode d \<and> (x \<noteq> m \<longrightarrow> parentNodeOf d x = None)"
    unfolding oneMarker_def by blast
  have pm: "parentNodeOf d m = Some p" using m(2) by (rule attached_parent)
  have cm: "contains d p m" using m(2) by (rule attached_contains)
  let ?st = "st\<lparr>parentNode := Some p\<rparr>"
  have fp: "(if parentNode st = None then findParent st d else st) = ?st"
    using par m(1) pm by (auto simp: findParent_def markerOf_def split: option.splits)
  have same: "oneMarker p (seen @ held ?st) ?st d"
    using one m old unfolding oneMarker_def held_def markerOf_def
    by (auto split: option.splits)
  show ?thesis
  proof (cases "condition env")
    case True
    show ?thesis
    proof (cases "placeholder st")
      case None
      then have e: "elm st = Some m" using m(1) by (simp add: markerOf_def split: option.splits)
      have "conditionalEffect opts condition env (st, d) = Inr (?st, d)"
        using True None by (simp add: conditionalEffect_def fp Let_def)
      then show ?thesis using same True e by auto
    next
      case (Some c)
      then have c: "c = m" and e: "elm st = None"
        using m(1) one by (auto simp: markerOf_def split: option.splits)
      from sc obtain root bs d1 where b: "createComponent env opts d = Inr (root, bs, d1)"
        and ad: "adds d d1 root"
        unfolding selfContained_def
        by (metis (no_types, lifting) old.sum.simps(5) prod_cases3 sum.case_eq_if sum.collapse(2) case_prod_conv)
      have a1: "attached d1 p m" using ad m(2) by (rule adds_attached)
      have r: "parentNodeOf d1 root = None" "root < nextNode d1" "root \<noteq> m"
        using ad m(2) adds_root_orphan [OF ad] by (auto simp: adds_def attached_def)
      from replaceChild_marker [OF a1 r] obtain d2 where
        rc: "replaceChild p root m d1 = Inr d2" and n2: "nextNode d2 = nextNode d1"
        and a2: "attached d2 p root" and om: "parentNodeOf d2 m = None"
        and ox: "\<forall>x. x \<noteq> root \<longrightarrow> parentNodeOf d1 x = None \<longrightarrow> parentNodeOf d2 x = None"
        by blast
      let ?st1 = "?st\<lparr>elm := Some root, placeholder := None\<rparr>"
      have run: "conditionalEffect opts condition env (st, d) = Inr (?st1, d2)"
        using True Some c cm b rc by (simp add: conditionalEffect_def fp Let_def)
      have "\<forall>x \<in> set (seen @ held ?st1).
              x < nextNode d2 \<and> (x \<noteq> root \<longrightarrow> parentNodeOf d2 x = None)"
      proof
        fix x assume "x \<in> set (seen @ held ?st1)"
        then have "x = root \<or> x \<in> set seen" by (auto simp: held_def)
        then show "x < nextNode d2 \<and> (x \<noteq> root \<longrightarrow> parentNodeOf d2 x = None)"
        proof
          assume "x = root" then show ?thesis using r(2) n2 by simp
        next
          assume xs: "x \<in> set seen"
          then have xn: "x < nextNode d" using old by blast
          then have lt: "x < nextNode d2" using adds_nextNode [OF ad] n2 by simp
          have "x \<noteq> root \<longrightarrow> parentNodeOf d2 x = None"
          proof (cases "x = m")
            case True then show ?thesis using om by simp
          next
            case False
            then have "parentNodeOf d x = None" using old xs by blast
            then have "parentNodeOf d1 x = None" using ad xn adds_orphan by blast
            then show ?thesis using ox by blast
          qed
          with lt show ?thesis by simp
        qed
      qed
      then have "oneMarker p (seen @ held ?st1) ?st1 d2"
        unfolding oneMarker_def using a2 by (auto simp: markerOf_def held_def)
      then show ?thesis using run True by auto
    qed
  next
    case False
    show ?thesis
    proof (cases "elm st")
      case None
      have "conditionalEffect opts condition env (st, d) = Inr (?st, d)"
        using False None by (simp add: conditionalEffect_def fp Let_def)
      then show ?thesis using same False None by auto
    next
      case (Some e)
      then have e: "e = m" and pl: "placeholder st = None"
        using m(1) one by (auto simp: markerOf_def split: option.splits)
      let ?c = "nextNode d"
      let ?d1 = "snd (alloc (Comment ''hidden'') d)"
      have cc: "createComment ''hidden'' d = (?c, ?d1)"
        by (simp add: createComment_def alloc_def Let_def)
      have ad: "adds d ?d1 ?c" by (rule alloc_adds)
      have a1: "attached ?d1 p m" using ad m(2) by (rule adds_attached)
      have r: "parentNodeOf ?d1 ?c = None" "?c < nextNode ?d1" "?c \<noteq> m"
        using ad m(2) adds_root_orphan [OF ad] by (auto simp: adds_def attached_def)
      from replaceChild_marker [OF a1 r] obtain d2 where
        rc: "replaceChild p ?c m ?d1 = Inr d2" and n2: "nextNode d2 = nextNode ?d1"
        and a2: "attached d2 p ?c" and om: "parentNodeOf d2 m = None"
        and ox: "\<forall>x. x \<noteq> ?c \<longrightarrow> parentNodeOf ?d1 x = None \<longrightarrow> parentNodeOf d2 x = None"
        by blast
      let ?st1 = "?st\<lparr>placeholder := Some ?c, elm := None\<rparr>"
      have run: "conditionalEffect opts condition env (st, d) = Inr (?st1, d2)"
        using False Some e cm cc rc by (simp add: conditionalEffect_def fp Let_def)
      have "\<forall>x \<in> set (seen @ held ?st1).
              x < nextNode d2 \<and> (x \<noteq> ?c \<longrightarrow> parentNodeOf d2 x = None)"
      proof
        fix x assume "x \<in> set (seen @ held ?st1)"
        then have "x = ?c \<or> x \<in> set seen" by (auto simp: held_def)
        then show "x < nextNode d2 \<and> (x \<noteq> ?c \<longrightarrow> parentNodeOf d2 x = None)"
        proof
          assume "x = ?c" then show ?thesis using r(2) n2 by simp
        next
          assume xs: "x \<in> set seen"
          then have xn: "x < nextNode d" using old by blast
          then have lt: "x < nextNode d2" using adds_nextNode [OF ad] n2 by simp
          have "x \<noteq> ?c \<longrightarrow> parentNodeOf d2 x = None"
          proof (cases "x = m")
            case True then show ?thesis using om by simp
          next
            case False
            then have "parentNodeOf d x = None" using old xs by blast
            then have "parentNodeOf ?d1 x = None" using ad xn adds_orphan by blast
            then show ?thesis using ox by blast
          qed
          with lt show ?thesis by simp
        qed
      qed
      then have "oneMarker p (seen @ held ?st1) ?st1 d2"
        unfolding oneMarker_def using a2 by (auto simp: markerOf_def held_def)
      then show ?thesis using run False by auto
    qed
  qed
qed

lemma toggles_oneMarker:
  assumes sc: "selfContained opts"
  shows "oneMarker p seen st d \<Longrightarrow>
    \<exists>seen1 st1 d1. toggles opts condition envs (seen, st, d) = Inr (seen1, st1, d1) \<and>
       oneMarker p seen1 st1 d1 \<and>
       (elm st1 \<noteq> None) = (if envs = [] then elm st \<noteq> None else condition (last envs))"
proof (induction envs arbitrary: seen st d)
  case Nil
  then show ?case by simp
next
  case (Cons env envs)
  from oneMarker_step [OF sc Cons.prems, of condition env] obtain st1 d1 where
    run: "conditionalEffect opts condition env (st, d) = Inr (st1, d1)"
    and inv: "oneMarker p (seen @ held st1) st1 d1"
    and e: "(elm st1 \<noteq> None) = condition env"
    by blast
  from Cons.IH [OF inv] obtain seen2 st2 d2 where
    "toggles opts condition envs (seen @ held st1, st1, d1) = Inr (seen2, st2, d2)"
    "oneMarker p seen2 st2 d2"
    "(elm st2 \<noteq> None) = (if envs = [] then elm st1 \<noteq> None else condition (last envs))"
    by blast
  then show ?case using run e by auto
qed

lemma appendChild_attached:
  assumes "p < nextNode d" "n < nextNode d" "p \<noteq> n"
  shows "attached (appendChild p n d) p n"
  using assms by (auto simp: attached_def appendChild_def detach_def Let_def)

lemma conditionalComponent_start:
  assumes sc: "selfContained opts"
    and start: "conditionalComponent opts condition Remove env0 d = Inr (n, st, d0)"
  shows "adds d d0 n \<and> markerOf st = Some n \<and> held st = [n] \<and> parentNode st = None \<and>
         (elm st = None \<or> placeholder st = None) \<and> (elm st \<noteq> None) = condition env0"
proof -
  let ?none = "\<lparr>elm = None, placeholder = None, parentNode = None\<rparr> :: cond_state"
  have fp: "findParent ?none d = ?none" by (simp add: findParent_def)
  show ?thesis
  proof (cases "condition env0")
    case True
    from sc obtain root bs d1 where b: "createComponent env0 opts d = Inr (root, bs, d1)"
      and ad: "adds d d1 root"
      unfolding selfContained_def
      by (metis (no_types, lifting) old.sum.simps(5) prod_cases3 sum.case_eq_if sum.collapse(2) case_prod_conv)
    from start True b have "n = root" "d0 = d1" "st = ?none\<lparr>elm := Some root\<rparr>"
      by (auto simp: conditionalComponent_def conditionalEffect_def fp markerOf_def Let_def)
    then show ?thesis using ad True by (simp add: markerOf_def held_def)
  next
    case False
    have cc: "createComment ''hidden'' d = (nextNode d, snd (alloc (Comment ''hidden'') d))"
      by (simp add: createComment_def alloc_def Let_def)
    from start False cc have "n = nextNode d" "d0 = snd (alloc (Comment ''hidden'') d)"
      "st = ?none\<lparr>placeholder := Some (nextNode d)\<rparr>"
      by (auto simp: conditionalComponent_def conditionalEffect_def fp markerOf_def Let_def)
    then show ?thesis using alloc_adds [of d "Comment ''hidden''"] False
      by (simp add: markerOf_def held_def)
  qed
qed

text \<open>
  Claim C9. A conditional component of the remove strategy is created, the node it returns
  is appended to an element \<open>p\<close>, and its condition then changes any number of times.
  After every change exactly one of \<^verbatim>\<open>elm\<close> and \<^verbatim>\<open>placeholder\<close> is set, the component
  when the condition holds and the comment otherwise; that node is a child of \<open>p\<close> and of
  no other node, and every node the effect has held before it is no one's child. The
  statement is about every sequence of changes, so it holds at every point of the
  sequence true, false, true, false that follows a start with the condition false.
\<close>

theorem remove_strategy_one_marker:
  assumes sc: "selfContained opts" and p: "p < nextNode d"
    and start: "conditionalComponent opts condition Remove env0 d = Inr (n, st, d0)"
  shows "\<exists>seen st1 d1.
           toggles opts condition envs ([n], st, appendChild p n d0) = Inr (seen, st1, d1) \<and>
           oneMarker p seen st1 d1 \<and> (elm st1 \<noteq> None) = condition (last (env0 # envs))"
proof -
  from conditionalComponent_start [OF sc start]
  have ad: "adds d d0 n" and mk: "markerOf st = Some n" and h: "held st = [n]"
    and pn: "parentNode st = None" and one: "elm st = None \<or> placeholder st = None"
    and e0: "(elm st \<noteq> None) = condition env0"
    by simp_all
  have "attached (appendChild p n d0) p n"
    using ad p by (intro appendChild_attached) (auto simp: adds_def)
  then have inv: "oneMarker p [n] st (appendChild p n d0)"
    unfolding oneMarker_def using pn one mk ad by (auto simp: adds_def attached_def)
  from toggles_oneMarker [OF sc inv, of condition envs] e0 show ?thesis
    by (cases "envs = []") auto
qed

lemma feedback_parts:
  "split CHR ''>'' ''strong.feedback'' = [''strong.feedback'']"
  "regexMatch ''strong.feedback'' = (Some ''strong'', None, Some ''feedback'')"
  "validName ''strong''" "toLowerCase ''strong'' = ''strong''"
  "join '' '' (split CHR ''.'' ''feedback'') = ''feedback''"
  by code_simp+

lemma selfContained_feedback: "selfContained feedback"
proof -
  have "\<And>(env :: bool) d. case createComponent env feedback d of
        Inl e \<Rightarrow> False | Inr (root, bs, d1) \<Rightarrow> adds d d1 root"
  proof -
    fix env :: bool and d :: document
    let ?n = "nextNode d"
    let ?dP = "set_className ?n ''feedback'' (snd (alloc (Element ''strong'') d))"
    let ?d1 = "addChildren ?n (One (Str ''Todo name must be at least 4 charters long'')) ?dP"
    have parse: "parseEmmet ''strong.feedback'' d = Inr (?n, ?n, ?dP)"
      by (simp add: parseEmmet_def feedback_parts createElement_valid Let_def)
    have build: "createComponent env feedback d = Inr (?n, [], ?d1)"
      by (simp add: createComponent_def feedback_def plain_def parse applyClasses_def
          applyEvents_def applyAttributes_def applyChildren_def falsy_def)
    have "adds d ?d1 ?n"
      by (auto simp: adds_def addChildren_def addChild_def createTextNode_def split_def
          appendChild_def detach_def alloc_def Let_def set_className_def)
    then show "case createComponent env feedback d of
        Inl e \<Rightarrow> False | Inr (root, bs, d1) \<Rightarrow> adds d d1 root"
      by (simp add: build)
  qed
  then show ?thesis unfolding selfContained_def by blast
qed

theorem remove_strategy_one_marker_witness:
  "selfContained feedback \<and> 0 < nextNode host \<and>
   conditionalComponent feedback (\<lambda>b. b) Remove False host =
     Inr (1, \<lparr>elm = None, placeholder = Some 1, parentNode = None\<rparr>,
          snd (alloc (Comment ''hidden'') host)) \<and>
   (\<exists>seen st1 d1.
      toggles feedback (\<lambda>b. b) [True, False, True, False]
        ([1], \<lparr>elm = None, placeholder = Some 1, parentNode = None\<rparr>,
         appendChild 0 1 (snd (alloc (Comment ''hidden'') host))) = Inr (seen, st1, d1) \<and>
      oneMarker 0 seen st1 d1 \<and> elm st1 = None)"
proof -
  have p: "0 < nextNode host" by (simp add: host_def)
  have n: "nextNode host = 1" by (simp add: host_def emptyDocument_def)
  have start: "conditionalComponent feedback (\<lambda>b. b) Remove False host =
     Inr (1, \<lparr>elm = None, placeholder = Some 1, parentNode = None\<rparr>,
          snd (alloc (Comment ''hidden'') host))"
    by (simp add: conditionalComponent_def conditionalEffect_def findParent_def createComment_def
        markerOf_def prod.case_eq_if n)
  from remove_strategy_one_marker [OF selfContained_feedback p start, of "[True, False, True, False]"]
    selfContained_feedback p start
  show ?thesis by simp
qed

text \<open>
  Claim C3 fails on the code. A conditional component is created while its condition is
  false and is never attached. When the condition becomes true, a substitution is due and
  no parent can be found: the effect takes the branch of the first run again, builds the
  component, returns, and holds both nodes, neither of which has a parent. The \<^verbatim>\<open>throw\<close>
  that follows that branch is never reached.
\<close>

theorem unresolved_parent_returns_silently:
  "(case andThen (conditionalComponent feedback (\<lambda>b. b) Remove False host)
           (\<lambda>(n, st, d). conditionalEffect feedback (\<lambda>b. b) True (st, d)) of
      Inl e \<Rightarrow> False
    | Inr (st, d) \<Rightarrow>
        elm st = Some 2 \<and> placeholder st = Some 1 \<and> parentNode st = None \<and>
        parentNodeOf d 1 = None \<and> parentNodeOf d 2 = None)"
  by code_simp

end
